theory Spec2Isabelle
  imports Main "HOL-Library.Sublist"
begin

section \<open>Payloads\<close>

text \<open>
  A payload is the value tree that the clients receive as \<open>dict[str, Any]\<close>: dictionaries,
  lists, tuples and the scalars \<open>None\<close>, \<open>bool\<close>, \<open>int\<close> and \<open>str\<close>. A dictionary is its
  list of items in insertion order (the keys of a Python dictionary are pairwise
  different). Keys are strings or, since \<open>_redact_recursive\<close> tests
  \<open>isinstance(key, str)\<close>, integers. A tuple is a sequence that is not a \<open>list\<close>: the
  functions of \<open>redaction.py\<close> test \<open>isinstance(obj, list)\<close>, while \<open>json.dumps\<close> writes
  a tuple as it writes a list. A \<open>char\<close> stands for one code point below 256.
  Floating-point numbers and objects of further classes (sets, instances) are not part of
  the model; the source treats them as it treats a tuple.
\<close>

datatype pykey = KStr string | KInt int

datatype payload =
    PNone
  | PBool bool
  | PInt int
  | PStr string
  | PList "payload list"
  | PDict "(pykey \<times> payload) list"
  | PTuple "payload list"

fun is_scalar :: "payload \<Rightarrow> bool" where
  "is_scalar (PList xs) = False"
| "is_scalar (PDict kvs) = False"
| "is_scalar (PTuple xs) = False"
| "is_scalar obj = True"

section \<open>Redaction (\<open>redaction.py\<close>)\<close>

text \<open>
  \<open>str.lower()\<close> on code points below 256: the letters \<open>A\<close> to \<open>Z\<close> and the upper-case
  letters of the Latin-1 block (U+00C0 to U+00DE without the multiplication sign U+00D7)
  move up by 32; every other code point stays.
\<close>

definition char_lower :: "char \<Rightarrow> char" where
  "char_lower c =
     (let n = of_char c :: nat
      in if (65 \<le> n \<and> n \<le> 90) \<or> (192 \<le> n \<and> n \<le> 222 \<and> n \<noteq> 215)
         then char_of (n + 32) else c)"

definition str_lower :: "string \<Rightarrow> string" where
  "str_lower s = map char_lower s"

definition REDACT_KEYS :: "string set" where
  "REDACT_KEYS = {''api_key'', ''token'', ''secret'', ''password'', ''access_key'',
     ''refresh_token'', ''authorization'', ''auth_token'', ''private_key'',
     ''secret_key'', ''credentials''}"

definition REDACTED_VALUE :: string where
  "REDACTED_VALUE = ''[REDACTED]''"

text \<open>
  The test of the loop body, \<open>key_lower in REDACT_KEYS\<close> with
  \<open>key_lower = key.lower() if isinstance(key, str) else key\<close>: an integer is never equal
  to a string, so an integer key is never a member.
\<close>

fun key_sensitive :: "pykey \<Rightarrow> bool" where
  "key_sensitive (KStr s) = (str_lower s \<in> REDACT_KEYS)"
| "key_sensitive (KInt n) = False"

text \<open>
  \<open>_redact_recursive\<close> and \<open>_deep_copy\<close>: a branch for \<open>dict\<close>, a branch for \<open>list\<close>, and
  the last branch, \<open>return obj\<close>, for everything else: the scalars and the tuples.
\<close>

fun redact_recursive :: "payload \<Rightarrow> payload" where
  "redact_recursive (PDict kvs) =
     PDict (map (\<lambda>(key, v). if key_sensitive key then (key, PStr REDACTED_VALUE)
                             else (key, redact_recursive v)) kvs)"
| "redact_recursive (PList xs) = PList (map redact_recursive xs)"
| "redact_recursive obj = obj"

fun deep_copy :: "payload \<Rightarrow> payload" where
  "deep_copy (PDict kvs) = PDict (map (\<lambda>(key, v). (key, deep_copy v)) kvs)"
| "deep_copy (PList xs) = PList (map deep_copy xs)"
| "deep_copy obj = obj"

definition redact_payload :: "payload \<Rightarrow> bool \<Rightarrow> payload" where
  "redact_payload payload skip_redaction =
     (if skip_redaction then deep_copy payload else redact_recursive payload)"

section \<open>Size bounding (\<open>_truncate_payload\<close> of both clients)\<close>

text \<open>
  \<open>json.dumps(payload, default=str)\<close> with the defaults of the standard library: the
  separators are \<open>", "\<close> and \<open>": "\<close>, and \<open>ensure_ascii\<close> is on, so inside a string a
  quote, a backslash and every code point outside the range from space to tilde are
  escaped. An integer key is written as the string of its decimal form, and a tuple is
  written as a list is. The interpreter's
  limits on recursion depth and on the number of digits of an integer are not modelled.
\<close>

definition hex_digit :: "nat \<Rightarrow> char" where
  "hex_digit n = ''0123456789abcdef'' ! (n mod 16)"

definition escape_char :: "char \<Rightarrow> string" where
  "escape_char c =
     (let n = of_char c :: nat
      in if n = 0x22 then [CHR 0x5C, CHR 0x22]
         else if n = 0x5C then [CHR 0x5C, CHR 0x5C]
         else if n = 0x0A then [CHR 0x5C, CHR ''n'']
         else if n = 0x0D then [CHR 0x5C, CHR ''r'']
         else if n = 0x09 then [CHR 0x5C, CHR ''t'']
         else if n = 0x08 then [CHR 0x5C, CHR ''b'']
         else if n = 0x0C then [CHR 0x5C, CHR ''f'']
         else if n < 0x20 \<or> 0x7E < n
           then [CHR 0x5C, CHR ''u'', CHR ''0'', CHR ''0'', hex_digit (n div 16), hex_digit n]
         else [c])"

definition json_str :: "string \<Rightarrow> string" where
  "json_str s = [CHR 0x22] @ concat (map escape_char s) @ [CHR 0x22]"

function dec_nat :: "nat \<Rightarrow> string" where
  "dec_nat n = (if n < 10 then [hex_digit n] else dec_nat (n div 10) @ [hex_digit (n mod 10)])"
  by pat_completeness auto
termination
  by (relation "measure id") auto

declare dec_nat.simps [simp del]

definition py_str_int :: "int \<Rightarrow> string" where
  "py_str_int i = (if i < 0 then CHR ''-'' # dec_nat (nat (- i)) else dec_nat (nat i))"

fun join :: "string \<Rightarrow> string list \<Rightarrow> string" where
  "join sep [] = []"
| "join sep [x] = x"
| "join sep (x # y # ys) = x @ sep @ join sep (y # ys)"

fun json_key :: "pykey \<Rightarrow> string" where
  "json_key (KStr s) = json_str s"
| "json_key (KInt i) = json_str (py_str_int i)"

fun json_dumps :: "payload \<Rightarrow> string" where
  "json_dumps PNone = ''null''"
| "json_dumps (PBool b) = (if b then ''true'' else ''false'')"
| "json_dumps (PInt i) = py_str_int i"
| "json_dumps (PStr s) = json_str s"
| "json_dumps (PList xs) = ''['' @ join '', '' (map json_dumps xs) @ '']''"
| "json_dumps (PDict kvs) =
     ''{'' @ join '', '' (map (\<lambda>(key, v). json_key key @ '': '' @ json_dumps v) kvs) @ ''}''"
| "json_dumps (PTuple xs) = ''['' @ join '', '' (map json_dumps xs) @ '']''"

text \<open>
  \<open>len(s.encode("utf-8"))\<close>: a code point below 128 takes one byte, one from 128 to 255
  takes two.
\<close>

definition utf8_len :: "string \<Rightarrow> nat" where
  "utf8_len s = sum_list (map (\<lambda>c. if (of_char c :: nat) < 128 then 1 else 2) s)"

definition truncate_payload :: "int \<Rightarrow> payload \<Rightarrow> payload" where
  "truncate_payload max_bytes payload =
     (let payload_json = json_dumps payload
      in if int (utf8_len payload_json) \<le> max_bytes then payload
         else PDict [(KStr ''_truncated'', PBool True),
                     (KStr ''_original_size'', PInt (int (utf8_len payload_json))),
                     (KStr ''_max_size'', PInt max_bytes)])"

text \<open>
  The two statements of \<open>dispatch\<close> and of \<open>emit_improvement_event\<close> that prepare a
  payload: \<open>redact_payload\<close>, then \<open>_truncate_payload\<close> on its result.
\<close>

definition process_payload :: "int \<Rightarrow> bool \<Rightarrow> payload \<Rightarrow> payload" where
  "process_payload max_bytes skip_redaction payload =
     truncate_payload max_bytes (redact_payload payload skip_redaction)"

section \<open>Dispatch entries (\<open>dispatch/models.py\<close>)\<close>

text \<open>
  Exceptions are values. \<open>ValidationError\<close> carries the list of the fields that failed,
  each with the kind of its error, as the error of the validation library does.
\<close>

datatype pyerr =
    ValueError
  | TypeError
  | ValidationError "(string \<times> string) list"
  | PydanticSerializationError
  | TimeoutException
  | ConnectError
  | JSONDecodeError
  | RecursionError

definition SUMMARY_MAX_LENGTH :: nat where
  "SUMMARY_MAX_LENGTH = 512"

definition PAYLOAD_MAX_SIZE_BYTES :: int where
  "PAYLOAD_MAX_SIZE_BYTES = 64 * 1024"

definition KIND_MAX_LENGTH :: nat where
  "KIND_MAX_LENGTH = 64"

definition SOURCE_MAX_LENGTH :: nat where
  "SOURCE_MAX_LENGTH = 32"

definition SCHEMA_VERSION :: int where
  "SCHEMA_VERSION = 1"

record DispatchEntry =
  entry_ticket_uuid :: string
  entry_run_uuid :: string
  entry_kind :: string
  entry_summary :: string
  entry_message_uuid :: "string option"
  entry_payload :: "payload option"
  entry_source :: string
  entry_schema_version :: int
  entry_client_ts :: "string option"

text \<open>A field annotated \<open>str\<close> rejects \<open>None\<close>.\<close>

definition str_errors :: "string \<Rightarrow> string option \<Rightarrow> (string \<times> string) list" where
  "str_errors field v = (case v of None \<Rightarrow> [(field, ''string_type'')] | Some s \<Rightarrow> [])"

text \<open>
  \<open>kind: str = Field(max_length=KIND_MAX_LENGTH)\<close> with the validator \<open>kind_not_empty\<close>:
  the validator of a field runs after the length constraint, and only when that holds.
\<close>

definition kind_errors :: "string \<Rightarrow> (string \<times> string) list" where
  "kind_errors v =
     (if length v > KIND_MAX_LENGTH then [(''kind'', ''string_too_long'')]
      else if v = [] then [(''kind'', ''value_error'')]
      else [])"

text \<open>
  \<open>summary: str = Field(max_length=SUMMARY_MAX_LENGTH)\<close> with the validator
  \<open>summary_single_line\<close>, which raises when \<open>"\n" in v\<close>.
\<close>

definition summary_errors :: "string \<Rightarrow> (string \<times> string) list" where
  "summary_errors v =
     (if length v > SUMMARY_MAX_LENGTH then [(''summary'', ''string_too_long'')]
      else if CHR 0x0A \<in> set v then [(''summary'', ''value_error'')]
      else [])"

fun is_str_key :: "pykey \<Rightarrow> bool" where
  "is_str_key (KStr s) = True"
| "is_str_key (KInt n) = False"

text \<open>
  A field annotated \<open>dict[str, Any] | None\<close> accepts \<open>None\<close> and a dictionary whose keys are
  strings, with one error for each key that is not; the values are not inspected.
\<close>

definition payload_errors :: "payload option \<Rightarrow> (string \<times> string) list" where
  "payload_errors v =
     (case v of
        None \<Rightarrow> []
      | Some (PDict kvs) \<Rightarrow>
          map (\<lambda>key. (''payload'', ''string_type''))
            (filter (\<lambda>key. \<not> is_str_key key) (map fst kvs))
      | Some other \<Rightarrow> [(''payload'', ''dict_type'')])"

definition source_errors :: "string \<Rightarrow> (string \<times> string) list" where
  "source_errors v =
     (if length v > SOURCE_MAX_LENGTH then [(''source'', ''string_too_long'')] else [])"

text \<open>
  The constructor \<open>DispatchEntry(...)\<close> with the keyword arguments that \<open>dispatch\<close> passes.
  All fields are validated, in the order of their declaration; the errors are raised
  together.
\<close>

definition entry_errors ::
  "string option \<Rightarrow> string option \<Rightarrow> string \<Rightarrow> string \<Rightarrow> payload option \<Rightarrow> string \<Rightarrow>
   (string \<times> string) list" where
  "entry_errors ticket_uuid run_uuid kind summary payload source =
     str_errors ''ticket_uuid'' ticket_uuid @ str_errors ''run_uuid'' run_uuid @
     kind_errors kind @ summary_errors summary @ payload_errors payload @
     source_errors source"

definition new_DispatchEntry ::
  "string option \<Rightarrow> string option \<Rightarrow> string \<Rightarrow> string \<Rightarrow> string option \<Rightarrow> payload option \<Rightarrow>
   string \<Rightarrow> int \<Rightarrow> string option \<Rightarrow> pyerr + DispatchEntry" where
  "new_DispatchEntry ticket_uuid run_uuid kind summary message_uuid payload source
       schema_version client_ts =
     (let errors = entry_errors ticket_uuid run_uuid kind summary payload source
      in case (ticket_uuid, run_uuid) of
           (Some t, Some r) \<Rightarrow>
             if errors = [] then
               Inr \<lparr>entry_ticket_uuid = t, entry_run_uuid = r, entry_kind = kind,
                    entry_summary = summary, entry_message_uuid = message_uuid,
                    entry_payload = payload, entry_source = source,
                    entry_schema_version = schema_version, entry_client_ts = client_ts\<rparr>
             else Inl (ValidationError errors)
         | _ \<Rightarrow> Inl (ValidationError errors))"

text \<open>
  \<open>entry.model_dump(mode="json", exclude_none=True)\<close>: the fields in the order of their
  declaration, those that are \<open>None\<close> left out. The payload is carried as it is; the
  JSON mode turns a tuple inside it into a list, which is the form that \<open>json_dumps\<close>
  writes for it.
\<close>

definition opt_item :: "string \<Rightarrow> string option \<Rightarrow> (pykey \<times> payload) list" where
  "opt_item key v = (case v of None \<Rightarrow> [] | Some s \<Rightarrow> [(KStr key, PStr s)])"

definition DispatchEntry_dump :: "DispatchEntry \<Rightarrow> payload" where
  "DispatchEntry_dump entry =
     PDict ([(KStr ''ticket_uuid'', PStr (entry_ticket_uuid entry)),
             (KStr ''run_uuid'', PStr (entry_run_uuid entry)),
             (KStr ''kind'', PStr (entry_kind entry)),
             (KStr ''summary'', PStr (entry_summary entry))] @
            opt_item ''message_uuid'' (entry_message_uuid entry) @
            (case entry_payload entry of None \<Rightarrow> [] | Some p \<Rightarrow> [(KStr ''payload'', p)]) @
            [(KStr ''source'', PStr (entry_source entry)),
             (KStr ''schema_version'', PInt (entry_schema_version entry))] @
            opt_item ''client_ts'' (entry_client_ts entry))"

section \<open>The HTTP transport\<close>

text \<open>
  The HTTP library is outside the repository. A transport gives, for a request, the
  exception that the call raises or the response; every operation returns its result
  together with the list of the requests it made.
\<close>

datatype http_method = GET | POST | PATCH | DELETE

record http_request =
  req_method :: http_method
  req_url :: string
  req_params :: "(string \<times> string) list"
  req_json :: "payload option"
  req_headers :: "(string \<times> string) list"
  req_timeout_ms :: int

record http_response =
  status_code :: int
  response_json :: "pyerr + payload"

type_synonym transport = "http_request \<Rightarrow> pyerr + http_response"

definition is_success :: "http_response \<Rightarrow> bool" where
  "is_success response = (status_code response \<ge> 200 \<and> status_code response < 300)"

text \<open>The formatting of an optional string inside an f-string.\<close>

definition format_opt :: "string option \<Rightarrow> string" where
  "format_opt v = (case v of None \<Rightarrow> ''None'' | Some s \<Rightarrow> s)"

text \<open>Truth value of an optional string: \<open>None\<close> and the empty string are false.\<close>

definition truthy :: "string option \<Rightarrow> bool" where
  "truthy v = (case v of None \<Rightarrow> False | Some s \<Rightarrow> s \<noteq> [])"

text \<open>
  \<open>try: ... except Exception: return fallback\<close> around a computation: an exception
  becomes the fallback result; the requests made so far stay made.
\<close>

definition except_Exception ::
  "(pyerr + 'a) \<times> http_request list \<Rightarrow> 'a \<Rightarrow> (pyerr + 'a) \<times> http_request list" where
  "except_Exception r fallback =
     (case r of (Inl e, reqs) \<Rightarrow> (Inr fallback, reqs) | (Inr v, reqs) \<Rightarrow> (Inr v, reqs))"

section \<open>The dispatch client (\<open>dispatch/client.py\<close>)\<close>

definition DEFAULT_TIMEOUT_MS :: int where
  "DEFAULT_TIMEOUT_MS = 1500"

definition DEFAULT_MAX_BYTES :: int where
  "DEFAULT_MAX_BYTES = PAYLOAD_MAX_SIZE_BYTES"

record DispatchClient =
  dc_dispatch_url :: "string option"
  dc_dispatch_token :: "string option"
  dc_ticket_uuid :: "string option"
  dc_run_uuid :: "string option"
  dc_message_uuid :: "string option"
  dc_timeout_ms :: int
  dc_max_bytes :: int
  dc_debug :: bool
  dc_enabled :: bool

text \<open>
  \<open>DispatchClient.__init__\<close>; the last field is
  \<open>all([dispatch_url, dispatch_token, ticket_uuid, run_uuid])\<close>. The debug lines that
  the operations print to the error stream are not modelled; they do not enter any
  result.
\<close>

definition new_DispatchClient ::
  "string option \<Rightarrow> string option \<Rightarrow> string option \<Rightarrow> string option \<Rightarrow> string option \<Rightarrow>
   int \<Rightarrow> int \<Rightarrow> bool \<Rightarrow> DispatchClient" where
  "new_DispatchClient dispatch_url dispatch_token ticket_uuid run_uuid message_uuid
       timeout_ms max_bytes debug =
     \<lparr>dc_dispatch_url = dispatch_url, dc_dispatch_token = dispatch_token,
      dc_ticket_uuid = ticket_uuid, dc_run_uuid = run_uuid, dc_message_uuid = message_uuid,
      dc_timeout_ms = timeout_ms, dc_max_bytes = max_bytes, dc_debug = debug,
      dc_enabled = list_all truthy [dispatch_url, dispatch_token, ticket_uuid, run_uuid]\<rparr>"

text \<open>
  \<open>int(s)\<close> on a string: white space around an optional sign and decimal digits, where
  single underscores may separate digits; anything else raises \<open>ValueError\<close> (\<open>None\<close>
  here). Among the code points below 256 the white space is tab to carriage return,
  space, U+0085 and U+00A0, and the decimal digits are \<open>0\<close> to \<open>9\<close>. The interpreter's
  limit on the number of digits is not modelled.
\<close>

definition py_isspace :: "char \<Rightarrow> bool" where
  "py_isspace c =
     (let n = of_char c :: nat in (9 \<le> n \<and> n \<le> 13) \<or> n = 32 \<or> n = 0x85 \<or> n = 0xA0)"

definition is_digit :: "char \<Rightarrow> bool" where
  "is_digit c = (let n = of_char c :: nat in 48 \<le> n \<and> n \<le> 57)"

definition digit_val :: "char \<Rightarrow> nat" where
  "digit_val c = of_char c - 48"

definition strip :: "string \<Rightarrow> string" where
  "strip s = rev (dropWhile py_isspace (rev (dropWhile py_isspace s)))"

fun parse_digits :: "string \<Rightarrow> nat \<Rightarrow> nat option" where
  "parse_digits [] acc = Some acc"
| "parse_digits [c] acc = (if is_digit c then Some (10 * acc + digit_val c) else None)"
| "parse_digits (c # d # cs) acc =
     (if is_digit c then parse_digits (d # cs) (10 * acc + digit_val c)
      else if c = CHR ''_'' \<and> is_digit d then parse_digits cs (10 * acc + digit_val d)
      else None)"

definition parse_unsigned :: "string \<Rightarrow> nat option" where
  "parse_unsigned s =
     (case s of [] \<Rightarrow> None
      | c # cs \<Rightarrow> if is_digit c then parse_digits cs (digit_val c) else None)"

definition py_int :: "string \<Rightarrow> int option" where
  "py_int s =
     (case strip s of
        [] \<Rightarrow> None
      | c # cs \<Rightarrow>
          if c = CHR ''-'' then map_option (\<lambda>n. - int n) (parse_unsigned cs)
          else if c = CHR ''+'' then map_option int (parse_unsigned cs)
          else map_option int (parse_unsigned (c # cs)))"

text \<open>\<open>os.environ.get(name, fallback)\<close>.\<close>

definition environ_get :: "(string \<rightharpoonup> string) \<Rightarrow> string \<Rightarrow> string \<Rightarrow> string" where
  "environ_get environ name fallback = (case environ name of None \<Rightarrow> fallback | Some v \<Rightarrow> v)"

definition DispatchClient_from_env :: "(string \<rightharpoonup> string) \<Rightarrow> pyerr + DispatchClient" where
  "DispatchClient_from_env environ =
     (let dispatch_url = environ ''FULCRUM_DISPATCH_URL'';
          dispatch_token = environ ''FULCRUM_DISPATCH_TOKEN'';
          ticket_uuid = environ ''FULCRUM_TICKET_UUID'';
          run_uuid = environ ''FULCRUM_RUN_UUID'';
          message_uuid = environ ''FULCRUM_MESSAGE_UUID'';
          debug = (environ_get environ ''FULCRUM_DISPATCH_DEBUG'' [] = ''1'')
      in case py_int (environ_get environ ''FULCRUM_DISPATCH_TIMEOUT_MS''
                        (py_str_int DEFAULT_TIMEOUT_MS)) of
           None \<Rightarrow> Inl ValueError
         | Some timeout_ms \<Rightarrow>
             (case py_int (environ_get environ ''FULCRUM_DISPATCH_MAX_BYTES''
                             (py_str_int DEFAULT_MAX_BYTES)) of
                None \<Rightarrow> Inl ValueError
              | Some max_bytes \<Rightarrow>
                  Inr (new_DispatchClient dispatch_url dispatch_token ticket_uuid run_uuid
                         message_uuid timeout_ms max_bytes debug)))"

definition get_dispatch_client :: "(string \<rightharpoonup> string) \<Rightarrow> pyerr + DispatchClient" where
  "get_dispatch_client environ = DispatchClient_from_env environ"

text \<open>
  The first statement of the \<open>try\<close> block of \<open>dispatch\<close>:
  \<open>summary[: SUMMARY_MAX_LENGTH - 3] + "..."\<close> when the summary is too long.
\<close>

definition truncate_summary :: "string \<Rightarrow> string" where
  "truncate_summary summary =
     (if length summary > SUMMARY_MAX_LENGTH
      then take (SUMMARY_MAX_LENGTH - 3) summary @ ''...''
      else summary)"

text \<open>\<open>summary.replace("\n", " ")\<close>.\<close>

definition replace_newlines :: "string \<Rightarrow> string" where
  "replace_newlines s = map (\<lambda>c. if c = CHR 0x0A then CHR '' '' else c) s"

text \<open>
  The \<open>try\<close> block of \<open>dispatch\<close> up to the construction of the entry. The argument
  \<open>now\<close> is the value of \<open>datetime.now(UTC).isoformat()\<close>.
\<close>

definition dispatch_entry ::
  "DispatchClient \<Rightarrow> string \<Rightarrow> string \<Rightarrow> string \<Rightarrow> payload option \<Rightarrow> string \<Rightarrow>
   string option \<Rightarrow> bool \<Rightarrow> pyerr + DispatchEntry" where
  "dispatch_entry self now kind summary payload source client_ts skip_redaction =
     (let summary' = truncate_summary summary;
          processed_payload =
            (case payload of None \<Rightarrow> None
             | Some p \<Rightarrow> Some (process_payload (dc_max_bytes self) skip_redaction p))
      in new_DispatchEntry (dc_ticket_uuid self) (dc_run_uuid self) kind
           (replace_newlines summary') (dc_message_uuid self) processed_payload source
           SCHEMA_VERSION (Some (if truthy client_ts then format_opt client_ts else now)))"

text \<open>
  \<open>_send\<close>: one POST; both exception handlers and a status outside 200 to 299 give
  \<open>False\<close>. Without a URL the call fails before any request is made.
\<close>

definition send :: "DispatchClient \<Rightarrow> transport \<Rightarrow> DispatchEntry \<Rightarrow> bool \<times> http_request list" where
  "send self net entry =
     (case dc_dispatch_url self of
        None \<Rightarrow> (False, [])
      | Some url \<Rightarrow>
          (let request =
                 \<lparr>req_method = POST, req_url = url, req_params = [],
                  req_json = Some (DispatchEntry_dump entry),
                  req_headers =
                    [(''Authorization'', ''Bearer '' @ format_opt (dc_dispatch_token self)),
                     (''Content-Type'', ''application/json'')],
                  req_timeout_ms = dc_timeout_ms self\<rparr>
           in (case net request of Inl e \<Rightarrow> False | Inr response \<Rightarrow> is_success response,
               [request])))"

definition dispatch ::
  "DispatchClient \<Rightarrow> transport \<Rightarrow> string \<Rightarrow> string \<Rightarrow> string \<Rightarrow> payload option \<Rightarrow> string \<Rightarrow>
   string option \<Rightarrow> bool \<Rightarrow> (pyerr + bool) \<times> http_request list" where
  "dispatch self net now kind summary payload source client_ts skip_redaction =
     (if \<not> dc_enabled self then (Inr False, [])
      else except_Exception
             (case dispatch_entry self now kind summary payload source client_ts
                     skip_redaction of
                Inl e \<Rightarrow> (Inl e, [])
              | Inr entry \<Rightarrow> (case send self net entry of (ok, reqs) \<Rightarrow> (Inr ok, reqs)))
             False)"

text \<open>Assignment \<open>d[key] = v\<close> on the items of a dictionary.\<close>

fun dict_set :: "pykey \<Rightarrow> 'a \<Rightarrow> (pykey \<times> 'a) list \<Rightarrow> (pykey \<times> 'a) list" where
  "dict_set k v [] = [(k, v)]"
| "dict_set k v ((k', v') # kvs) =
     (if k' = k then (k', v) # kvs else (k', v') # dict_set k v kvs)"

definition dispatch_text ::
  "DispatchClient \<Rightarrow> transport \<Rightarrow> string \<Rightarrow> string \<Rightarrow> string option \<Rightarrow>
   (pyerr + bool) \<times> http_request list" where
  "dispatch_text self net now summary text =
     (let payload = (case text of None \<Rightarrow> None
                     | Some t \<Rightarrow> Some (PDict [(KStr ''text'', PStr t)]))
      in dispatch self net now ''text'' summary payload ''sdk'' None False)"

definition dispatch_json ::
  "DispatchClient \<Rightarrow> transport \<Rightarrow> string \<Rightarrow> string \<Rightarrow> payload \<Rightarrow>
   (pyerr + bool) \<times> http_request list" where
  "dispatch_json self net now summary payload =
     dispatch self net now ''json'' summary (Some payload) ''sdk'' None False"

definition dispatch_api_call ::
  "DispatchClient \<Rightarrow> transport \<Rightarrow> string \<Rightarrow> string \<Rightarrow> string \<Rightarrow> string \<Rightarrow>
   (string \<times> payload) list \<Rightarrow> (pyerr + bool) \<times> http_request list" where
  "dispatch_api_call self net now summary service operation details =
     (let payload = fold (\<lambda>(k, v). dict_set (KStr k) v) details
                      [(KStr ''service'', PStr service), (KStr ''operation'', PStr operation)]
      in dispatch self net now ''api_call'' summary (Some (PDict payload)) ''sdk'' None False)"

definition dispatch_external_ref ::
  "DispatchClient \<Rightarrow> transport \<Rightarrow> string \<Rightarrow> string \<Rightarrow> string \<Rightarrow> string \<Rightarrow> string \<Rightarrow>
   string option \<Rightarrow> (pyerr + bool) \<times> http_request list" where
  "dispatch_external_ref self net now summary provider ref_type ref_id url =
     (let payload = [(KStr ''provider'', PStr provider), (KStr ''ref_type'', PStr ref_type),
                     (KStr ''ref_id'', PStr ref_id)];
          payload = (case url of None \<Rightarrow> payload
                     | Some u \<Rightarrow> dict_set (KStr ''url'') (PStr u) payload)
      in dispatch self net now ''external_ref'' summary (Some (PDict payload)) ''sdk'' None
           False)"

definition dispatch_db ::
  "DispatchClient \<Rightarrow> transport \<Rightarrow> string \<Rightarrow> string \<Rightarrow> string \<Rightarrow> string \<Rightarrow> int option \<Rightarrow>
   string option \<Rightarrow> (pyerr + bool) \<times> http_request list" where
  "dispatch_db self net now summary operation table rows query =
     (let payload = [(KStr ''operation'', PStr operation), (KStr ''table'', PStr table)];
          payload = (case rows of None \<Rightarrow> payload
                     | Some n \<Rightarrow> dict_set (KStr ''count'') (PInt n) payload);
          payload = (case query of None \<Rightarrow> payload
                     | Some q \<Rightarrow> dict_set (KStr ''query'') (PStr q) payload)
      in dispatch self net now ''db'' summary (Some (PDict payload)) ''sdk'' None False)"

text \<open>
  A model instance, as far as \<open>dispatch_model\<close> uses it: the name of its class and the
  outcome of \<open>model.model_dump(mode="json")\<close>, which raises when a field holds a value
  that has no JSON form.
\<close>

record BaseModel =
  class_name :: string
  model_dump :: "pyerr + payload"

text \<open>
  \<open>dispatch_model\<close> builds its payload, and with it calls \<open>model_dump\<close>, before it calls
  \<open>dispatch\<close>: outside every \<open>try\<close> block.
\<close>

definition dispatch_model ::
  "DispatchClient \<Rightarrow> transport \<Rightarrow> string \<Rightarrow> string \<Rightarrow> BaseModel \<Rightarrow> string option \<Rightarrow>
   (pyerr + bool) \<times> http_request list" where
  "dispatch_model self net now summary model input_summary =
     (case model_dump model of
        Inl e \<Rightarrow> (Inl e, [])
      | Inr data \<Rightarrow>
          (let payload = [(KStr ''model_name'', PStr (class_name model)), (KStr ''data'', data)];
               payload = (case input_summary of None \<Rightarrow> payload
                          | Some i \<Rightarrow> dict_set (KStr ''input_summary'') (PStr i) payload)
           in dispatch self net now ''model'' summary (Some (PDict payload)) ''sdk'' None False))"

section \<open>Improvements (\<open>improvements/models.py\<close>)\<close>

definition ImprovementStatus :: "string set" where
  "ImprovementStatus = {''open'', ''in_progress'', ''resolved'', ''dismissed''}"

record Improvement =
  imp_uuid :: string
  imp_project_uuid :: string
  imp_ticket_uuid :: "string option"
  imp_run_uuid :: "string option"
  imp_title :: string
  imp_description :: "string option"
  imp_status :: string
  imp_dedupe_key :: "string option"
  imp_created_at :: "string option"
  imp_updated_at :: "string option"

text \<open>
  Reading one keyword argument of a model constructor: a required \<open>str\<close>, a
  \<open>str | None\<close> with default \<open>None\<close>, and a status with its default. Each gives the
  errors of the field and its value.
\<close>

definition required_str ::
  "(pykey \<times> payload) list \<Rightarrow> string \<Rightarrow> (string \<times> string) list \<times> string" where
  "required_str kwargs field =
     (case map_of kwargs (KStr field) of
        None \<Rightarrow> ([(field, ''missing'')], [])
      | Some (PStr v) \<Rightarrow> ([], v)
      | Some other \<Rightarrow> ([(field, ''string_type'')], []))"

definition optional_str ::
  "(pykey \<times> payload) list \<Rightarrow> string \<Rightarrow> nat option \<Rightarrow>
   (string \<times> string) list \<times> string option" where
  "optional_str kwargs field max_length =
     (case map_of kwargs (KStr field) of
        None \<Rightarrow> ([], None)
      | Some PNone \<Rightarrow> ([], None)
      | Some (PStr v) \<Rightarrow>
          (case max_length of
             None \<Rightarrow> ([], Some v)
           | Some m \<Rightarrow> if length v > m then ([(field, ''string_too_long'')], None)
                       else ([], Some v))
      | Some other \<Rightarrow> ([(field, ''string_type'')], None))"

definition optional_status ::
  "(pykey \<times> payload) list \<Rightarrow> (string \<times> string) list \<times> string option" where
  "optional_status kwargs =
     (case map_of kwargs (KStr ''status'') of
        None \<Rightarrow> ([], None)
      | Some PNone \<Rightarrow> ([], None)
      | Some (PStr v) \<Rightarrow>
          if v \<in> ImprovementStatus then ([], Some v) else ([(''status'', ''literal_error'')], None)
      | Some other \<Rightarrow> ([(''status'', ''literal_error'')], None))"

definition status_or_open ::
  "(pykey \<times> payload) list \<Rightarrow> (string \<times> string) list \<times> string" where
  "status_or_open kwargs =
     (case map_of kwargs (KStr ''status'') of
        None \<Rightarrow> ([], ''open'')
      | Some (PStr v) \<Rightarrow>
          if v \<in> ImprovementStatus then ([], v) else ([(''status'', ''literal_error'')], [])
      | Some other \<Rightarrow> ([(''status'', ''literal_error'')], []))"

text \<open>
  \<open>Improvement(**item)\<close>: the item has to be a dictionary with string keys; keys that
  are not fields are ignored.
\<close>

definition new_Improvement :: "payload \<Rightarrow> pyerr + Improvement" where
  "new_Improvement item =
     (case item of
        PDict kwargs \<Rightarrow>
          if \<not> list_all is_str_key (map fst kwargs) then Inl TypeError
          else
            (let (e1, uuid) = required_str kwargs ''uuid'';
                 (e2, project_uuid) = required_str kwargs ''project_uuid'';
                 (e3, ticket_uuid) = optional_str kwargs ''ticket_uuid'' None;
                 (e4, run_uuid) = optional_str kwargs ''run_uuid'' None;
                 (e5, title) = required_str kwargs ''title'';
                 (e6, description) = optional_str kwargs ''description'' None;
                 (e7, status) = status_or_open kwargs;
                 (e8, dedupe_key) = optional_str kwargs ''dedupe_key'' None;
                 (e9, created_at) = optional_str kwargs ''created_at'' None;
                 (e10, updated_at) = optional_str kwargs ''updated_at'' None;
                 errors = e1 @ e2 @ e3 @ e4 @ e5 @ e6 @ e7 @ e8 @ e9 @ e10
             in if errors = [] then
                  Inr \<lparr>imp_uuid = uuid, imp_project_uuid = project_uuid,
                       imp_ticket_uuid = ticket_uuid, imp_run_uuid = run_uuid,
                       imp_title = title, imp_description = description, imp_status = status,
                       imp_dedupe_key = dedupe_key, imp_created_at = created_at,
                       imp_updated_at = updated_at\<rparr>
                else Inl (ValidationError errors))
      | other \<Rightarrow> Inl TypeError)"

text \<open>
  \<open>ImprovementCreate(...).model_dump(mode="json", exclude_none=True)\<close>: the validation
  error or the items of the dump.
\<close>

definition ImprovementCreate_dump ::
  "string \<Rightarrow> string option \<Rightarrow> string option \<Rightarrow> string \<Rightarrow> pyerr + (pykey \<times> payload) list" where
  "ImprovementCreate_dump title description dedupe_key status =
     (let errors =
            (if length title > 256 then [(''title'', ''string_too_long'')] else []) @
            (case dedupe_key of None \<Rightarrow> []
             | Some k \<Rightarrow> if length k > 256 then [(''dedupe_key'', ''string_too_long'')] else []) @
            (if status \<in> ImprovementStatus then [] else [(''status'', ''literal_error'')])
      in if errors = [] then
           Inr ([(KStr ''title'', PStr title)] @ opt_item ''description'' description @
                opt_item ''dedupe_key'' dedupe_key @ [(KStr ''status'', PStr status)])
         else Inl (ValidationError errors))"

text \<open>\<open>ImprovementUpdate(**valid_fields).model_dump(mode="json", exclude_none=True)\<close>.\<close>

definition ImprovementUpdate_dump ::
  "(pykey \<times> payload) list \<Rightarrow> pyerr + (pykey \<times> payload) list" where
  "ImprovementUpdate_dump kwargs =
     (let (e1, title) = optional_str kwargs ''title'' (Some 256);
          (e2, description) = optional_str kwargs ''description'' None;
          (e3, status) = optional_status kwargs;
          errors = e1 @ e2 @ e3
      in if errors = [] then
           Inr (opt_item ''title'' title @ opt_item ''description'' description @
                opt_item ''status'' status)
         else Inl (ValidationError errors))"

text \<open>\<open>ImprovementEvent(...).model_dump(mode="json", exclude_none=True)\<close>.\<close>

definition ImprovementEvent_dump ::
  "string \<Rightarrow> string \<Rightarrow> payload option \<Rightarrow> pyerr + (pykey \<times> payload) list" where
  "ImprovementEvent_dump improvement_uuid action payload =
     (let errors = (if length action > 64 then [(''action'', ''string_too_long'')] else []) @
                   payload_errors payload
      in if errors = [] then
           Inr ([(KStr ''improvement_uuid'', PStr improvement_uuid),
                 (KStr ''action'', PStr action)] @
                (case payload of None \<Rightarrow> [] | Some p \<Rightarrow> [(KStr ''payload'', p)]))
         else Inl (ValidationError errors))"

section \<open>The improvements client (\<open>improvements/client.py\<close>)\<close>

record ImprovementsClient =
  ic_improvements_url :: "string option"
  ic_run_token :: "string option"
  ic_project_uuid :: "string option"
  ic_ticket_uuid :: "string option"
  ic_run_uuid :: "string option"
  ic_timeout_ms :: int
  ic_max_bytes :: int
  ic_debug :: bool
  ic_enabled :: bool

definition new_ImprovementsClient ::
  "string option \<Rightarrow> string option \<Rightarrow> string option \<Rightarrow> string option \<Rightarrow> string option \<Rightarrow>
   int \<Rightarrow> int \<Rightarrow> bool \<Rightarrow> ImprovementsClient" where
  "new_ImprovementsClient improvements_url run_token project_uuid ticket_uuid run_uuid
       timeout_ms max_bytes debug =
     \<lparr>ic_improvements_url = improvements_url, ic_run_token = run_token,
      ic_project_uuid = project_uuid, ic_ticket_uuid = ticket_uuid, ic_run_uuid = run_uuid,
      ic_timeout_ms = timeout_ms, ic_max_bytes = max_bytes, ic_debug = debug,
      ic_enabled = list_all truthy [improvements_url, run_token, run_uuid]\<rparr>"

text \<open>\<open>a or b\<close> on optional strings.\<close>

definition py_or :: "string option \<Rightarrow> string option \<Rightarrow> string option" where
  "py_or a b = (if truthy a then a else b)"

definition ImprovementsClient_from_env ::
  "(string \<rightharpoonup> string) \<Rightarrow> pyerr + ImprovementsClient" where
  "ImprovementsClient_from_env environ =
     (let improvements_url = environ ''FULCRUM_IMPROVEMENTS_URL'';
          run_token = py_or (environ ''FULCRUM_RUN_TOKEN'') (environ ''FULCRUM_DISPATCH_TOKEN'');
          project_uuid = environ ''FULCRUM_PROJECT_UUID'';
          ticket_uuid = environ ''FULCRUM_TICKET_UUID'';
          run_uuid = environ ''FULCRUM_RUN_UUID'';
          debug = (environ_get environ ''FULCRUM_IMPROVEMENTS_DEBUG'' [] = ''1'')
      in case py_int (environ_get environ ''FULCRUM_IMPROVEMENTS_TIMEOUT_MS''
                        (py_str_int DEFAULT_TIMEOUT_MS)) of
           None \<Rightarrow> Inl ValueError
         | Some timeout_ms \<Rightarrow>
             (case py_int (environ_get environ ''FULCRUM_IMPROVEMENTS_MAX_BYTES''
                             (py_str_int DEFAULT_MAX_BYTES)) of
                None \<Rightarrow> Inl ValueError
              | Some max_bytes \<Rightarrow>
                  Inr (new_ImprovementsClient improvements_url run_token project_uuid
                         ticket_uuid run_uuid timeout_ms max_bytes debug)))"

definition get_improvements_client ::
  "(string \<rightharpoonup> string) \<Rightarrow> pyerr + ImprovementsClient" where
  "get_improvements_client environ = ImprovementsClient_from_env environ"

definition get_headers :: "ImprovementsClient \<Rightarrow> (string \<times> string) list" where
  "get_headers self =
     [(''Authorization'', ''Bearer '' @ format_opt (ic_run_token self)),
      (''Content-Type'', ''application/json'')]"

definition opt_payload :: "string option \<Rightarrow> payload" where
  "opt_payload v = (case v of None \<Rightarrow> PNone | Some s \<Rightarrow> PStr s)"

text \<open>
  The request of an operation and the check of its status, inside the \<open>try\<close> block: an
  exception of the transport propagates to the handler of the block.
\<close>

definition request_ok ::
  "transport \<Rightarrow> http_request \<Rightarrow> (pyerr + bool) \<times> http_request list" where
  "request_ok net request =
     (case net request of
        Inl e \<Rightarrow> (Inl e, [request])
      | Inr response \<Rightarrow> (Inr (is_success response), [request]))"

fun new_Improvements :: "payload list \<Rightarrow> pyerr + Improvement list" where
  "new_Improvements [] = Inr []"
| "new_Improvements (item # items) =
     (case new_Improvement item of
        Inl e \<Rightarrow> Inl e
      | Inr i \<Rightarrow> (case new_Improvements items of Inl e \<Rightarrow> Inl e | Inr is \<Rightarrow> Inr (i # is)))"

text \<open>The part of \<open>list_improvements\<close> that reads the body of a successful response.\<close>

definition improvements_of_data :: "payload \<Rightarrow> pyerr + Improvement list" where
  "improvements_of_data data =
     (case data of
        PList items \<Rightarrow> new_Improvements items
      | PDict kvs \<Rightarrow>
          (case map_of kvs (KStr ''improvements'') of
             Some (PList items) \<Rightarrow> new_Improvements items
           | _ \<Rightarrow> Inr [])
      | other \<Rightarrow> Inr [])"

definition list_improvements ::
  "ImprovementsClient \<Rightarrow> transport \<Rightarrow> string option \<Rightarrow>
   (pyerr + Improvement list) \<times> http_request list" where
  "list_improvements self net project_uuid =
     (if \<not> ic_enabled self then (Inr [], [])
      else except_Exception
        (let params = [(''run_uuid'', format_opt (ic_run_uuid self))];
             params = (if truthy project_uuid \<or> truthy (ic_project_uuid self)
                       then params @ [(''project_uuid'',
                                       format_opt (py_or project_uuid (ic_project_uuid self)))]
                       else params)
         in case ic_improvements_url self of
              None \<Rightarrow> (Inl TypeError, [])
            | Some url \<Rightarrow>
                (let request = \<lparr>req_method = GET, req_url = url, req_params = params,
                                req_json = None, req_headers = get_headers self,
                                req_timeout_ms = ic_timeout_ms self\<rparr>
                 in case net request of
                      Inl e \<Rightarrow> (Inl e, [request])
                    | Inr response \<Rightarrow>
                        if is_success response then
                          (case response_json response of
                             Inl e \<Rightarrow> (Inl e, [request])
                           | Inr data \<Rightarrow> (improvements_of_data data, [request]))
                        else (Inr [], [request])))
        [])"

definition create_improvement ::
  "ImprovementsClient \<Rightarrow> transport \<Rightarrow> string \<Rightarrow> string option \<Rightarrow> string option \<Rightarrow> string \<Rightarrow>
   (pyerr + bool) \<times> http_request list" where
  "create_improvement self net title description dedupe_key status =
     (if \<not> ic_enabled self then (Inr False, [])
      else except_Exception
        (case ImprovementCreate_dump title description dedupe_key status of
           Inl e \<Rightarrow> (Inl e, [])
         | Inr dump \<Rightarrow>
             (let request_body = (KStr ''run_uuid'', opt_payload (ic_run_uuid self)) # dump;
                  request_body =
                    (if truthy (ic_project_uuid self)
                     then dict_set (KStr ''project_uuid'') (opt_payload (ic_project_uuid self))
                            request_body
                     else request_body);
                  request_body =
                    (if truthy (ic_ticket_uuid self)
                     then dict_set (KStr ''ticket_uuid'') (opt_payload (ic_ticket_uuid self))
                            request_body
                     else request_body)
              in case ic_improvements_url self of
                   None \<Rightarrow> (Inl TypeError, [])
                 | Some url \<Rightarrow>
                     request_ok net
                       \<lparr>req_method = POST, req_url = url, req_params = [],
                        req_json = Some (PDict request_body), req_headers = get_headers self,
                        req_timeout_ms = ic_timeout_ms self\<rparr>))
        False)"

text \<open>
  The dictionary comprehension of \<open>update_improvement\<close> over the keyword arguments
  \<open>**fields\<close> (here \<open>kwargs\<close>): those named
  \<open>title\<close>, \<open>description\<close> or \<open>status\<close> whose value is not \<open>None\<close>.
\<close>

definition valid_fields :: "(string \<times> payload) list \<Rightarrow> (string \<times> payload) list" where
  "valid_fields kwargs =
     filter (\<lambda>(k, v). k \<in> {''title'', ''description'', ''status''} \<and> v \<noteq> PNone) kwargs"

definition update_improvement ::
  "ImprovementsClient \<Rightarrow> transport \<Rightarrow> string \<Rightarrow> (string \<times> payload) list \<Rightarrow>
   (pyerr + bool) \<times> http_request list" where
  "update_improvement self net uuid kwargs =
     (if \<not> ic_enabled self then (Inr False, [])
      else except_Exception
        (if valid_fields kwargs = [] then (Inr False, [])
         else
           (case ImprovementUpdate_dump (map (\<lambda>(k, v). (KStr k, v)) (valid_fields kwargs)) of
              Inl e \<Rightarrow> (Inl e, [])
            | Inr dump \<Rightarrow>
                request_ok net
                  \<lparr>req_method = PATCH,
                   req_url = format_opt (ic_improvements_url self) @ ''/'' @ uuid,
                   req_params = [],
                   req_json = Some (PDict ((KStr ''run_uuid'', opt_payload (ic_run_uuid self))
                                           # dump)),
                   req_headers = get_headers self, req_timeout_ms = ic_timeout_ms self\<rparr>))
        False)"

definition delete_improvement ::
  "ImprovementsClient \<Rightarrow> transport \<Rightarrow> string \<Rightarrow> (pyerr + bool) \<times> http_request list" where
  "delete_improvement self net uuid =
     (if \<not> ic_enabled self then (Inr False, [])
      else except_Exception
        (request_ok net
           \<lparr>req_method = DELETE,
            req_url = format_opt (ic_improvements_url self) @ ''/'' @ uuid,
            req_params = [(''run_uuid'', format_opt (ic_run_uuid self))],
            req_json = None, req_headers = get_headers self,
            req_timeout_ms = ic_timeout_ms self\<rparr>)
        False)"

definition emit_improvement_event ::
  "ImprovementsClient \<Rightarrow> transport \<Rightarrow> string \<Rightarrow> string \<Rightarrow> payload option \<Rightarrow>
   (pyerr + bool) \<times> http_request list" where
  "emit_improvement_event self net improvement_uuid action payload =
     (if \<not> ic_enabled self then (Inr False, [])
      else except_Exception
        (let processed_payload =
               (case payload of None \<Rightarrow> None
                | Some p \<Rightarrow> Some (process_payload (ic_max_bytes self) False p))
         in case ImprovementEvent_dump improvement_uuid action processed_payload of
              Inl e \<Rightarrow> (Inl e, [])
            | Inr dump \<Rightarrow>
                request_ok net
                  \<lparr>req_method = POST,
                   req_url = format_opt (ic_improvements_url self) @ ''/'' @ improvement_uuid
                             @ ''/events'',
                   req_params = [],
                   req_json = Some (PDict ((KStr ''run_uuid'', opt_payload (ic_run_uuid self))
                                           # dump)),
                   req_headers = get_headers self, req_timeout_ms = ic_timeout_ms self\<rparr>)
        False)"

section \<open>Redaction on a store of objects\<close>

text \<open>
  To speak about mutation and sharing, the same functions of \<open>redaction.py\<close> are modelled
  on a store: a list of the dictionaries, lists and tuples that exist, an object's address
  being its index. A value is a scalar or a reference to an object. Creating an object
  appends it to the store; \<open>result[key] = ...\<close> overwrites the object at the address of
  \<open>result\<close>. A tuple cannot be changed, but the objects that it refers to can. The first
  argument bounds the depth of the recursion, as the interpreter
  does: when it is used up the call raises \<open>RecursionError\<close>, which is what happens on a
  payload that contains itself. A reference that points outside the store does not occur
  in Python; it is returned unchanged, as by the last branch of the source.
\<close>

type_synonym addr = nat

datatype val = VNone | VBool bool | VInt int | VStr string | VRef addr

datatype obj = ODict "(pykey \<times> val) list" | OList "val list" | OTuple "val list"

type_synonym heap = "obj list"

text \<open>\<open>result[key] = v\<close> for the dictionary at address \<open>r\<close>.\<close>

definition dict_store :: "heap \<Rightarrow> addr \<Rightarrow> pykey \<Rightarrow> val \<Rightarrow> heap" where
  "dict_store h r key v =
     (case h ! r of ODict items \<Rightarrow> h[r := ODict (dict_set key v items)] | other \<Rightarrow> h)"

text \<open>
  \<open>_redact_recursive\<close>: the dictionary branch creates the empty \<open>result\<close> and then runs
  the loop over the items (\<open>redact_items_h\<close>); the list branch evaluates the comprehension
  (\<open>redact_elems_h\<close>) and creates the list; the last branch returns the reference to a
  tuple as it is.
\<close>

fun redact_recursive_h :: "nat \<Rightarrow> heap \<Rightarrow> val \<Rightarrow> (pyerr + val) \<times> heap"
  and redact_items_h :: "nat \<Rightarrow> heap \<Rightarrow> addr \<Rightarrow> (pykey \<times> val) list \<Rightarrow> pyerr option \<times> heap"
  and redact_elems_h :: "nat \<Rightarrow> heap \<Rightarrow> val list \<Rightarrow> (pyerr + val list) \<times> heap" where
  "redact_recursive_h 0 h obj = (Inl RecursionError, h)"
| "redact_recursive_h (Suc n) h (VRef a) =
     (if a < length h then
        (case h ! a of
           ODict kvs \<Rightarrow>
             (let result = length h
              in case redact_items_h n (h @ [ODict []]) result kvs of
                   (Some e, h') \<Rightarrow> (Inl e, h')
                 | (None, h') \<Rightarrow> (Inr (VRef result), h'))
         | OList xs \<Rightarrow>
             (case redact_elems_h n h xs of
                (Inl e, h') \<Rightarrow> (Inl e, h')
              | (Inr ys, h') \<Rightarrow> (Inr (VRef (length h')), h' @ [OList ys]))
         | OTuple xs \<Rightarrow> (Inr (VRef a), h))
      else (Inr (VRef a), h))"
| "redact_recursive_h (Suc n) h VNone = (Inr VNone, h)"
| "redact_recursive_h (Suc n) h (VBool b) = (Inr (VBool b), h)"
| "redact_recursive_h (Suc n) h (VInt i) = (Inr (VInt i), h)"
| "redact_recursive_h (Suc n) h (VStr s) = (Inr (VStr s), h)"
| "redact_items_h n h result [] = (None, h)"
| "redact_items_h n h result ((key, v) # kvs) =
     (if key_sensitive key
      then redact_items_h n (dict_store h result key (VStr REDACTED_VALUE)) result kvs
      else (case redact_recursive_h n h v of
              (Inl e, h') \<Rightarrow> (Some e, h')
            | (Inr v', h') \<Rightarrow> redact_items_h n (dict_store h' result key v') result kvs))"
| "redact_elems_h n h [] = (Inr [], h)"
| "redact_elems_h n h (x # xs) =
     (case redact_recursive_h n h x of
        (Inl e, h') \<Rightarrow> (Inl e, h')
      | (Inr y, h') \<Rightarrow>
          (case redact_elems_h n h' xs of
             (Inl e, h'') \<Rightarrow> (Inl e, h'')
           | (Inr ys, h'') \<Rightarrow> (Inr (y # ys), h'')))"

text \<open>\<open>_deep_copy\<close>, with its two comprehensions.\<close>

fun deep_copy_h :: "nat \<Rightarrow> heap \<Rightarrow> val \<Rightarrow> (pyerr + val) \<times> heap"
  and deep_copy_items_h ::
    "nat \<Rightarrow> heap \<Rightarrow> (pykey \<times> val) list \<Rightarrow> (pyerr + (pykey \<times> val) list) \<times> heap"
  and deep_copy_elems_h :: "nat \<Rightarrow> heap \<Rightarrow> val list \<Rightarrow> (pyerr + val list) \<times> heap" where
  "deep_copy_h 0 h obj = (Inl RecursionError, h)"
| "deep_copy_h (Suc n) h (VRef a) =
     (if a < length h then
        (case h ! a of
           ODict kvs \<Rightarrow>
             (case deep_copy_items_h n h kvs of
                (Inl e, h') \<Rightarrow> (Inl e, h')
              | (Inr items, h') \<Rightarrow> (Inr (VRef (length h')), h' @ [ODict items]))
         | OList xs \<Rightarrow>
             (case deep_copy_elems_h n h xs of
                (Inl e, h') \<Rightarrow> (Inl e, h')
              | (Inr ys, h') \<Rightarrow> (Inr (VRef (length h')), h' @ [OList ys]))
         | OTuple xs \<Rightarrow> (Inr (VRef a), h))
      else (Inr (VRef a), h))"
| "deep_copy_h (Suc n) h VNone = (Inr VNone, h)"
| "deep_copy_h (Suc n) h (VBool b) = (Inr (VBool b), h)"
| "deep_copy_h (Suc n) h (VInt i) = (Inr (VInt i), h)"
| "deep_copy_h (Suc n) h (VStr s) = (Inr (VStr s), h)"
| "deep_copy_items_h n h [] = (Inr [], h)"
| "deep_copy_items_h n h ((key, v) # kvs) =
     (case deep_copy_h n h v of
        (Inl e, h') \<Rightarrow> (Inl e, h')
      | (Inr v', h') \<Rightarrow>
          (case deep_copy_items_h n h' kvs of
             (Inl e, h'') \<Rightarrow> (Inl e, h'')
           | (Inr items, h'') \<Rightarrow> (Inr ((key, v') # items), h'')))"
| "deep_copy_elems_h n h [] = (Inr [], h)"
| "deep_copy_elems_h n h (x # xs) =
     (case deep_copy_h n h x of
        (Inl e, h') \<Rightarrow> (Inl e, h')
      | (Inr y, h') \<Rightarrow>
          (case deep_copy_elems_h n h' xs of
             (Inl e, h'') \<Rightarrow> (Inl e, h'')
           | (Inr ys, h'') \<Rightarrow> (Inr (y # ys), h'')))"

definition redact_payload_h :: "nat \<Rightarrow> heap \<Rightarrow> val \<Rightarrow> bool \<Rightarrow> (pyerr + val) \<times> heap" where
  "redact_payload_h n h payload skip_redaction =
     (if skip_redaction then deep_copy_h n h payload else redact_recursive_h n h payload)"

section \<open>Auxiliary notions and example values\<close>

text \<open>A string all of whose code points are below 128.\<close>

definition ascii :: "string \<Rightarrow> bool" where
  "ascii s = (\<forall>c \<in> set s. (of_char c :: nat) < 128)"

text \<open>The configured client of the tests of the repository.\<close>

definition test_client :: DispatchClient where
  "test_client = new_DispatchClient (Some ''http://test/dispatch'') (Some ''token'')
     (Some ''ticket'') (Some ''run'') None 1500 65536 False"

text \<open>An environment with the required variables of the dispatch client.\<close>

definition test_environ :: "string \<rightharpoonup> string" where
  "test_environ =
     [''FULCRUM_DISPATCH_URL'' \<mapsto> ''http://localhost:3000/api/dispatch'',
      ''FULCRUM_DISPATCH_TOKEN'' \<mapsto> ''test-token'',
      ''FULCRUM_TICKET_UUID'' \<mapsto> ''ticket-123'',
      ''FULCRUM_RUN_UUID'' \<mapsto> ''run-456'']"

text \<open>
  A value is fresh for a bound when it is no reference to an address below the bound; a
  store is fresh from a bound when the objects from that address on hold fresh values
  only.
\<close>

fun fresh_val :: "nat \<Rightarrow> val \<Rightarrow> bool" where
  "fresh_val b (VRef a) = (b \<le> a)"
| "fresh_val b v = True"

fun obj_vals :: "obj \<Rightarrow> val list" where
  "obj_vals (ODict kvs) = map snd kvs"
| "obj_vals (OList xs) = xs"
| "obj_vals (OTuple xs) = xs"

definition fresh_obj :: "nat \<Rightarrow> obj \<Rightarrow> bool" where
  "fresh_obj b ob = list_all (fresh_val b) (obj_vals ob)"

definition fresh_from :: "nat \<Rightarrow> heap \<Rightarrow> bool" where
  "fresh_from b h = list_all (fresh_obj b) (drop b h)"

text \<open>The objects that can be reached from a value by following references.\<close>

inductive reachable :: "heap \<Rightarrow> val \<Rightarrow> addr \<Rightarrow> bool" for h :: heap where
  reach_self: "a < length h \<Longrightarrow> reachable h (VRef a) a"
| reach_step: "a < length h \<Longrightarrow> v \<in> set (obj_vals (h ! a)) \<Longrightarrow> reachable h v c \<Longrightarrow>
     reachable h (VRef a) c"

text \<open>A store in which no reference points outside the store.\<close>

fun valid_val :: "heap \<Rightarrow> val \<Rightarrow> bool" where
  "valid_val h (VRef a) = (a < length h)"
| "valid_val h v = True"

definition valid_heap :: "heap \<Rightarrow> bool" where
  "valid_heap h = list_all (\<lambda>ob. list_all (valid_val h) (obj_vals ob)) h"

text \<open>
  The payload tree that a value denotes in a store, read to a given depth: the deep value
  that \<open>deepEqual\<close> compares.
\<close>

fun read :: "nat \<Rightarrow> heap \<Rightarrow> val \<Rightarrow> payload option"
  and read_items :: "nat \<Rightarrow> heap \<Rightarrow> (pykey \<times> val) list \<Rightarrow> (pykey \<times> payload) list option"
  and read_elems :: "nat \<Rightarrow> heap \<Rightarrow> val list \<Rightarrow> payload list option" where
  "read d h VNone = Some PNone"
| "read d h (VBool b) = Some (PBool b)"
| "read d h (VInt i) = Some (PInt i)"
| "read d h (VStr s) = Some (PStr s)"
| "read 0 h (VRef a) = None"
| "read (Suc d) h (VRef a) =
     (if a < length h then
        (case h ! a of
           ODict kvs \<Rightarrow> map_option PDict (read_items d h kvs)
         | OList xs \<Rightarrow> map_option PList (read_elems d h xs)
         | OTuple xs \<Rightarrow> map_option PTuple (read_elems d h xs))
      else None)"
| "read_items d h [] = Some []"
| "read_items d h ((key, v) # kvs) =
     (case read d h v of
        None \<Rightarrow> None
      | Some p \<Rightarrow> map_option (\<lambda>ps. (key, p) # ps) (read_items d h kvs))"
| "read_elems d h [] = Some []"
| "read_elems d h (x # xs) =
     (case read d h x of
        None \<Rightarrow> None
      | Some p \<Rightarrow> map_option (\<lambda>ps. p # ps) (read_elems d h xs))"

text \<open>
  Two stores agree on the addresses below \<open>lo\<close> and from \<open>b\<close> on when the second holds, at
  each of these addresses of the first, the object that the first holds there.
\<close>

definition agree_on :: "heap \<Rightarrow> heap \<Rightarrow> nat \<Rightarrow> nat \<Rightarrow> bool" where
  "agree_on g g' lo b =
     (length g \<le> length g' \<and> (\<forall>a < length g. a < lo \<or> b \<le> a \<longrightarrow> g' ! a = g ! a))"

text \<open>A tree without tuples.\<close>

fun tuple_free :: "payload \<Rightarrow> bool" where
  "tuple_free (PTuple xs) = False"
| "tuple_free (PList xs) = list_all tuple_free xs"
| "tuple_free (PDict kvs) = list_all (\<lambda>(key, v). tuple_free v) kvs"
| "tuple_free obj = True"

text \<open>A tree in which the keys of every dictionary are pairwise different.\<close>

fun distinct_keys :: "payload \<Rightarrow> bool" where
  "distinct_keys (PDict kvs) =
     (distinct (map fst kvs) \<and> list_all (\<lambda>(k, v). distinct_keys v) kvs)"
| "distinct_keys (PList xs) = list_all distinct_keys xs"
| "distinct_keys obj = True"

text \<open>The payload of the test \<open>test_does_not_mutate_original\<close>, as a store and as a tree.\<close>

definition test_heap :: heap where
  "test_heap = [ODict [(KStr ''api_key'', VStr ''secret''), (KStr ''nested'', VRef 1)],
                ODict [(KStr ''token'', VStr ''tok'')]]"

definition test_heap_redacted :: heap where
  "test_heap_redacted = test_heap @
     [ODict [(KStr ''api_key'', VStr ''[REDACTED]''), (KStr ''nested'', VRef 3)],
      ODict [(KStr ''token'', VStr ''[REDACTED]'')]]"

definition test_tree :: payload where
  "test_tree = PDict [(KStr ''api_key'', PStr ''secret''),
                      (KStr ''nested'', PDict [(KStr ''token'', PStr ''tok'')])]"

text \<open>
  A payload in which a dictionary with a sensitive key sits inside a tuple,
  \<open>{'t': ({'token': 'x'},)}\<close>, as a tree and as a store; and the store after
  \<open>redact_payload\<close> has run on it.
\<close>

definition tuple_tree :: payload where
  "tuple_tree = PDict [(KStr ''t'', PTuple [PDict [(KStr ''token'', PStr ''x'')]])]"

definition tuple_heap :: heap where
  "tuple_heap = [ODict [(KStr ''t'', VRef 1)], OTuple [VRef 2],
                 ODict [(KStr ''token'', VStr ''x'')]]"

definition tuple_heap_redacted :: heap where
  "tuple_heap_redacted = tuple_heap @ [ODict [(KStr ''t'', VRef 1)]]"

text \<open>
  An improvements client with its required configuration, a transport that answers 200,
  the dispatch client \<open>DispatchClient()\<close> without configuration, and a model instance
  with a field that has no JSON form.
\<close>

definition test_improvements_client :: ImprovementsClient where
  "test_improvements_client = new_ImprovementsClient (Some ''http://test/improvements'')
     (Some ''token'') None None (Some ''run'') 1500 65536 False"

definition respond_200 :: transport where
  "respond_200 request = Inr \<lparr>status_code = 200, response_json = Inr (PDict [])\<rparr>"

definition noop_client :: DispatchClient where
  "noop_client = new_DispatchClient None None None None None DEFAULT_TIMEOUT_MS
     DEFAULT_MAX_BYTES False"

definition unserialisable_model :: BaseModel where
  "unserialisable_model =
     \<lparr>class_name = ''Upload'', model_dump = Inl PydanticSerializationError\<rparr>"

section \<open>Properties of redaction\<close>

lemma redact_recursive_scalar: "is_scalar P \<Longrightarrow> redact_recursive P = P"
  by (cases P) simp_all

lemma redact_recursive_keys:
  "redact_recursive (PDict kvs) = PDict kvs' \<Longrightarrow> map fst kvs' = map fst kvs"
  by (auto split: prod.splits)

lemma redact_recursive_entry:
  assumes "redact_recursive (PDict kvs) = PDict kvs'" and "i < length kvs"
  shows "snd (kvs' ! i) =
           (if key_sensitive (fst (kvs ! i)) then PStr REDACTED_VALUE
            else redact_recursive (snd (kvs ! i)))"
  using assms by (auto split: prod.splits)

lemma redact_recursive_blind:
  assumes "key_sensitive k"
  shows "redact_recursive (PDict (xs @ (k, v) # ys)) = redact_recursive (PDict (xs @ (k, w) # ys))"
  using assms by simp

lemma key_sensitive_iff: "key_sensitive k \<longleftrightarrow> (\<exists>s. k = KStr s \<and> str_lower s \<in> REDACT_KEYS)"
  by (cases k) simp_all

lemma redact_recursive_idem: "redact_recursive (redact_recursive P) = redact_recursive P"
proof (induction P rule: redact_recursive.induct)
  case (1 kvs)
  have "(case (case kv of (key, v) \<Rightarrow>
                 if key_sensitive key then (key, PStr REDACTED_VALUE)
                 else (key, redact_recursive v)) of
           (key, v) \<Rightarrow> if key_sensitive key then (key, PStr REDACTED_VALUE)
                       else (key, redact_recursive v))
        = (case kv of (key, v) \<Rightarrow>
                 if key_sensitive key then (key, PStr REDACTED_VALUE)
                 else (key, redact_recursive v))"
    if "kv \<in> set kvs" for kv
  proof -
    obtain key v where kv: "kv = (key, v)"
      by (cases kv)
    show ?thesis
    proof (cases "key_sensitive key")
      case True
      then show ?thesis by (simp add: kv)
    next
      case False
      from "1.IH" [OF that kv [symmetric] False]
      have "redact_recursive (redact_recursive v) = redact_recursive v" .
      with False show ?thesis by (simp add: kv)
    qed
  qed
  then show ?case by simp
next
  case (2 xs)
  then show ?case by simp
qed simp_all

lemma sentinel_not_sensitive: "\<not> key_sensitive (KStr REDACTED_VALUE)"
  by code_simp

text \<open>
  What \<open>redact_payload\<close> does on dictionaries, lists and scalars when \<open>skip_redaction\<close> is
  false: it keeps the keys of a dictionary in their order; the value of an entry is the
  sentinel \<open>[REDACTED]\<close> when the key is a string whose lower-cased form is in the
  sensitive-key set, and the redaction of the original value otherwise. The result does
  not depend on the value under a sensitive key (that value is not descended into). A
  list is redacted element by element in order, a scalar is returned unchanged, and only
  string keys can be sensitive.
\<close>

lemma redact_payload_dict_list_scalar:
  "(\<exists>kvs'. redact_payload (PDict kvs) False = PDict kvs' \<and> map fst kvs' = map fst kvs \<and>
       (\<forall>i < length kvs. snd (kvs' ! i) =
          (if key_sensitive (fst (kvs ! i)) then PStr REDACTED_VALUE
           else redact_payload (snd (kvs ! i)) False))) \<and>
   (key_sensitive k \<longrightarrow>
       redact_payload (PDict (ys @ (k, v) # zs)) False =
       redact_payload (PDict (ys @ (k, w) # zs)) False) \<and>
   redact_payload (PList xs) False = PList (map (\<lambda>x. redact_payload x False) xs) \<and>
   (is_scalar P \<longrightarrow> redact_payload P False = P) \<and>
   (key_sensitive k \<longleftrightarrow> (\<exists>s. k = KStr s \<and> str_lower s \<in> REDACT_KEYS))"
proof -
  obtain kvs' where eq: "redact_recursive (PDict kvs) = PDict kvs'"
    by simp
  have "\<forall>i < length kvs. snd (kvs' ! i) =
          (if key_sensitive (fst (kvs ! i)) then PStr REDACTED_VALUE
           else redact_recursive (snd (kvs ! i)))"
    using redact_recursive_entry [OF eq] by blast
  with eq redact_recursive_keys [OF eq] have
    "\<exists>kvs'. redact_recursive (PDict kvs) = PDict kvs' \<and> map fst kvs' = map fst kvs \<and>
       (\<forall>i < length kvs. snd (kvs' ! i) =
          (if key_sensitive (fst (kvs ! i)) then PStr REDACTED_VALUE
           else redact_recursive (snd (kvs ! i))))"
    by blast
  moreover have "key_sensitive k \<longrightarrow>
       redact_recursive (PDict (ys @ (k, v) # zs)) = redact_recursive (PDict (ys @ (k, w) # zs))"
    using redact_recursive_blind by blast
  moreover have "redact_recursive (PList xs) = PList (map redact_recursive xs)"
    by simp
  moreover have "is_scalar P \<longrightarrow> redact_recursive P = P"
    using redact_recursive_scalar by blast
  ultimately show ?thesis
    unfolding redact_payload_def using key_sensitive_iff [of k] by simp
qed

lemma redact_payload_example:
  "redact_payload (PDict [(KStr ''Api_Key'', PDict [(KStr ''a'', PInt 1)]),
                          (KInt 7, PList [PDict [(KStr ''TOKEN'', PStr ''t''), (KStr ''n'', PNone)]])]) False
     = PDict [(KStr ''Api_Key'', PStr ''[REDACTED]''),
              (KInt 7, PList [PDict [(KStr ''TOKEN'', PStr ''[REDACTED]''), (KStr ''n'', PNone)]])] \<and>
   key_sensitive (KStr ''Api_Key'') \<and>
   redact_payload (PDict [(KStr ''Api_Key'', PInt 1), (KStr ''n'', PNone)]) False =
   redact_payload (PDict [(KStr ''Api_Key'', PList [PInt 2]), (KStr ''n'', PNone)]) False \<and>
   is_scalar (PStr ''token'') \<and> redact_payload (PStr ''token'') False = PStr ''token''"
proof -
  have s: "key_sensitive (KStr ''Api_Key'')"
    by code_simp
  have t: "key_sensitive (KStr ''TOKEN'')"
    by code_simp
  have n: "\<not> key_sensitive (KStr ''n'')" "\<not> key_sensitive (KStr ''a'')"
    by code_simp+
  have c: "is_scalar (PStr ''token'')"
    by simp
  from s c redact_payload_dict_list_scalar [of "[]" "KStr ''Api_Key''" "[]" "PInt 1" "[(KStr ''n'', PNone)]"
      "PList [PInt 2]" "[]" "PStr ''token''"]
  show ?thesis
    using t n by (simp add: redact_payload_def REDACTED_VALUE_def)
qed

text \<open>
  Claim C1. The claim says of every payload that, with \<open>skip_redaction\<close> false, every
  entry under a sensitive key has the sentinel as its value and every sequence is redacted
  element by element. \<open>_redact_recursive\<close> does this for a \<open>list\<close> but not for a tuple,
  which its test \<open>isinstance(obj, list)\<close> sends to the last branch: the tuple is returned
  as it is, with the dictionaries inside it unredacted. On the payload
  \<open>{'t': ({'token': 'x'},)}\<close> the key \<open>token\<close> is sensitive and the result is the payload
  itself, with \<open>'x'\<close> under \<open>token\<close>; the same payload with a list in place of the tuple
  is redacted. \<open>json.dumps\<close> writes both in the same way, and \<open>dispatch_json\<close> on a
  configured client sends the payload with \<open>'x'\<close> in it.
\<close>

theorem redact_payload_skips_tuple:
  "key_sensitive (KStr ''token'') \<and>
   redact_payload tuple_tree False
     = PDict [(KStr ''t'', PTuple [PDict [(KStr ''token'', PStr ''x'')]])] \<and>
   redact_payload (PDict [(KStr ''t'', PList [PDict [(KStr ''token'', PStr ''x'')]])]) False
     = PDict [(KStr ''t'', PList [PDict [(KStr ''token'', PStr ''[REDACTED]'')]])] \<and>
   json_dumps (redact_payload tuple_tree False)
     = json_dumps (PDict [(KStr ''t'', PList [PDict [(KStr ''token'', PStr ''x'')]])]) \<and>
   map req_json (snd (dispatch_json test_client respond_200 ''now'' ''upload'' tuple_tree))
     = [Some (PDict [(KStr ''ticket_uuid'', PStr ''ticket''), (KStr ''run_uuid'', PStr ''run''),
                     (KStr ''kind'', PStr ''json''), (KStr ''summary'', PStr ''upload''),
                     (KStr ''payload'',
                      PDict [(KStr ''t'', PTuple [PDict [(KStr ''token'', PStr ''x'')]])]),
                     (KStr ''source'', PStr ''sdk''), (KStr ''schema_version'', PInt 1),
                     (KStr ''client_ts'', PStr ''now'')])]"
proof -
  have tok: "key_sensitive (KStr ''token'')"
    by code_simp
  have nt: "\<not> key_sensitive (KStr ''t'')"
    by code_simp
  have r1: "redact_payload tuple_tree False = tuple_tree"
    by (simp add: redact_payload_def tuple_tree_def tok nt del: key_sensitive.simps)
  have r2: "redact_payload (PDict [(KStr ''t'', PList [PDict [(KStr ''token'', PStr ''x'')]])]) False
     = PDict [(KStr ''t'', PList [PDict [(KStr ''token'', PStr ''[REDACTED]'')]])]"
    by (simp add: redact_payload_def tok nt REDACTED_VALUE_def del: key_sensitive.simps)
  have j: "json_dumps tuple_tree
     = json_dumps (PDict [(KStr ''t'', PList [PDict [(KStr ''token'', PStr ''x'')]])])"
    by (simp add: tuple_tree_def)
  have "int (utf8_len (json_dumps tuple_tree)) \<le> 65536"
    by (simp add: tuple_tree_def json_str_def escape_char_def utf8_len_def)
  then have p: "process_payload 65536 False tuple_tree = tuple_tree"
    by (simp add: process_payload_def r1 truncate_payload_def)
  have pe: "payload_errors (Some tuple_tree) = []"
    by (simp add: payload_errors_def tuple_tree_def)
  have "dispatch_json test_client respond_200 ''now'' ''upload'' tuple_tree =
     (Inr True,
      [\<lparr>req_method = POST, req_url = ''http://test/dispatch'', req_params = [],
        req_json = Some (PDict [(KStr ''ticket_uuid'', PStr ''ticket''),
                     (KStr ''run_uuid'', PStr ''run''),
                     (KStr ''kind'', PStr ''json''), (KStr ''summary'', PStr ''upload''),
                     (KStr ''payload'', tuple_tree),
                     (KStr ''source'', PStr ''sdk''), (KStr ''schema_version'', PInt 1),
                     (KStr ''client_ts'', PStr ''now'')]),
        req_headers = [(''Authorization'', ''Bearer token''),
                       (''Content-Type'', ''application/json'')],
        req_timeout_ms = 1500\<rparr>])"
    by (simp add: dispatch_json_def dispatch_def test_client_def new_DispatchClient_def
        truthy_def dispatch_entry_def p pe Let_def truncate_summary_def replace_newlines_def
        new_DispatchEntry_def entry_errors_def str_errors_def kind_errors_def
        summary_errors_def source_errors_def SUMMARY_MAX_LENGTH_def KIND_MAX_LENGTH_def
        SOURCE_MAX_LENGTH_def SCHEMA_VERSION_def send_def respond_200_def is_success_def
        except_Exception_def DispatchEntry_dump_def opt_item_def format_opt_def)
  then have d: "map req_json (snd (dispatch_json test_client respond_200 ''now'' ''upload'' tuple_tree))
     = [Some (PDict [(KStr ''ticket_uuid'', PStr ''ticket''), (KStr ''run_uuid'', PStr ''run''),
                     (KStr ''kind'', PStr ''json''), (KStr ''summary'', PStr ''upload''),
                     (KStr ''payload'',
                      PDict [(KStr ''t'', PTuple [PDict [(KStr ''token'', PStr ''x'')]])]),
                     (KStr ''source'', PStr ''sdk''), (KStr ''schema_version'', PInt 1),
                     (KStr ''client_ts'', PStr ''now'')])]"
    by (simp add: tuple_tree_def)
  from r1 have r1': "redact_payload tuple_tree False
     = PDict [(KStr ''t'', PTuple [PDict [(KStr ''token'', PStr ''x'')]])]"
    by (simp add: tuple_tree_def)
  from j r1 have j': "json_dumps (redact_payload tuple_tree False)
     = json_dumps (PDict [(KStr ''t'', PList [PDict [(KStr ''token'', PStr ''x'')]])])"
    by simp
  from tok r1' r2 j' d show ?thesis
    by (intro conjI)
qed

text \<open>
  Claim C6. Redaction is idempotent, and the sentinel is a scalar that a second pass
  returns unchanged; as a key it is not sensitive.
\<close>

theorem redact_payload_idempotent:
  "redact_payload (redact_payload P False) False = redact_payload P False \<and>
   redact_payload (PStr REDACTED_VALUE) False = PStr REDACTED_VALUE \<and>
   \<not> key_sensitive (KStr REDACTED_VALUE)"
  using redact_recursive_idem [of P] sentinel_not_sensitive
  by (simp add: redact_payload_def)

section \<open>Properties of size bounding\<close>

lemma ascii_simps [simp]:
  "ascii []" "ascii (c # s) \<longleftrightarrow> (of_char c :: nat) < 128 \<and> ascii s"
  "ascii (s @ t) \<longleftrightarrow> ascii s \<and> ascii t"
  by (auto simp: ascii_def)

lemma hex_digit_ascii: "(of_char (hex_digit n) :: nat) < 128"
proof -
  have "n mod 16 < length ''0123456789abcdef''" by simp
  then have "hex_digit n \<in> set ''0123456789abcdef''"
    unfolding hex_digit_def by (rule nth_mem)
  then show ?thesis by auto
qed

lemma escape_char_ascii: "ascii (escape_char c)"
  by (simp add: escape_char_def Let_def hex_digit_ascii)

lemma json_str_ascii: "ascii (json_str s)"
  by (induction s) (simp_all add: json_str_def escape_char_ascii)

lemma dec_nat_ascii: "ascii (dec_nat n)"
  by (induction n rule: dec_nat.induct) (subst dec_nat.simps, simp add: hex_digit_ascii)

lemma py_str_int_ascii: "ascii (py_str_int i)"
  by (simp add: py_str_int_def dec_nat_ascii)

lemma join_ascii: "ascii sep \<Longrightarrow> (\<And>x. x \<in> set xs \<Longrightarrow> ascii x) \<Longrightarrow> ascii (join sep xs)"
  by (induction sep xs rule: join.induct) simp_all

lemma json_key_ascii: "ascii (json_key k)"
  by (cases k) (simp_all add: json_str_ascii py_str_int_ascii)

lemma json_dumps_ascii: "ascii (json_dumps p)"
proof (induction p rule: json_dumps.induct)
  case (5 xs)
  then show ?case by (auto intro!: join_ascii)
next
  case (6 kvs)
  then show ?case by (auto intro!: join_ascii simp: json_key_ascii)
next
  case (7 xs)
  then show ?case by (auto intro!: join_ascii)
qed (simp_all add: py_str_int_ascii json_str_ascii)

lemma utf8_len_ascii: "ascii s \<Longrightarrow> utf8_len s = length s"
  by (induction s) (simp_all add: utf8_len_def)

text \<open>
  Claim C3. \<open>_truncate_payload\<close> returns the payload itself when the UTF-8 length of
  its JSON text is at most \<open>max_bytes\<close>, and otherwise exactly the notice with the keys
  \<open>_truncated\<close>, \<open>_original_size\<close> (that length) and \<open>_max_size\<close>. The JSON text is
  ASCII, so the length in bytes is its number of characters. The clients apply the check
  once, to the whole result of the redaction: the processed payload is either that whole
  result or the notice.
\<close>

theorem truncate_payload_bound:
  "truncate_payload max_bytes P =
     (if int (utf8_len (json_dumps P)) \<le> max_bytes then P
      else PDict [(KStr ''_truncated'', PBool True),
                  (KStr ''_original_size'', PInt (int (utf8_len (json_dumps P)))),
                  (KStr ''_max_size'', PInt max_bytes)]) \<and>
   utf8_len (json_dumps P) = length (json_dumps P) \<and>
   process_payload max_bytes skip_redaction P =
     (if int (utf8_len (json_dumps (redact_payload P skip_redaction))) \<le> max_bytes
      then redact_payload P skip_redaction
      else PDict [(KStr ''_truncated'', PBool True),
                  (KStr ''_original_size'',
                   PInt (int (utf8_len (json_dumps (redact_payload P skip_redaction))))),
                  (KStr ''_max_size'', PInt max_bytes)])"
proof -
  have "utf8_len (json_dumps P) = length (json_dumps P)"
    using json_dumps_ascii by (rule utf8_len_ascii)
  then show ?thesis
    by (simp add: truncate_payload_def process_payload_def Let_def)
qed

theorem truncate_payload_bound_witness:
  "truncate_payload 19 (PDict [(KStr ''a'', PStr ''0123456789'')]) =
     PDict [(KStr ''a'', PStr ''0123456789'')] \<and>
   truncate_payload 18 (PDict [(KStr ''a'', PStr ''0123456789'')]) =
     PDict [(KStr ''_truncated'', PBool True), (KStr ''_original_size'', PInt 19),
            (KStr ''_max_size'', PInt 18)] \<and>
   process_payload 23 False (PDict [(KStr ''token'', PList [PInt 1, PInt 2, PInt 3, PInt 4, PInt 5, PInt 6])]) =
     PDict [(KStr ''token'', PStr ''[REDACTED]'')]"
proof -
  let ?A = "PDict [(KStr ''a'', PStr ''0123456789'')]"
  let ?B = "PDict [(KStr ''token'', PList [PInt 1, PInt 2, PInt 3, PInt 4, PInt 5, PInt 6])]"
  have n: "utf8_len (json_dumps ?A) = 19"
    by code_simp
  have r: "redact_payload ?B False = PDict [(KStr ''token'', PStr ''[REDACTED]'')]"
    by code_simp
  have m: "utf8_len (json_dumps (PDict [(KStr ''token'', PStr ''[REDACTED]'')])) = 23"
    by code_simp
  from truncate_payload_bound [of 19 ?A False]
  have "truncate_payload 19 ?A = ?A"
    by (simp only: n) simp
  moreover from truncate_payload_bound [of 18 ?A False]
  have "truncate_payload 18 ?A =
     PDict [(KStr ''_truncated'', PBool True), (KStr ''_original_size'', PInt 19),
            (KStr ''_max_size'', PInt 18)]"
    by (simp only: n) simp
  moreover from truncate_payload_bound [of 23 ?B False]
  have "process_payload 23 False ?B = PDict [(KStr ''token'', PStr ''[REDACTED]'')]"
    by (simp only: r m) simp
  ultimately show ?thesis
    by (intro conjI)
qed

section \<open>Properties of entry construction\<close>

lemma replace_newlines_free: "CHR 0x0A \<notin> set (replace_newlines s)"
  by (auto simp: replace_newlines_def)

lemma replace_newlines_id: "CHR 0x0A \<notin> set s \<Longrightarrow> replace_newlines s = s"
  by (induction s) (auto simp: replace_newlines_def)

lemma length_replace_newlines: "length (replace_newlines s) = length s"
  by (simp add: replace_newlines_def)

lemma length_truncate_summary: "length (truncate_summary s) = min (length s) 512"
  by (simp add: truncate_summary_def SUMMARY_MAX_LENGTH_def)

lemma truncate_summary_long:
  "length s > 512 \<Longrightarrow> truncate_summary s = take 509 s @ ''...''"
  by (simp add: truncate_summary_def SUMMARY_MAX_LENGTH_def)

lemma summary_errors_normalised: "summary_errors (replace_newlines (truncate_summary s)) = []"
  by (simp add: summary_errors_def replace_newlines_free length_replace_newlines
        length_truncate_summary SUMMARY_MAX_LENGTH_def)

lemma fst_str_errors: "x \<in> set (str_errors f v) \<Longrightarrow> fst x = f"
  by (auto simp: str_errors_def split: option.splits)

lemma fst_kind_errors: "x \<in> set (kind_errors v) \<Longrightarrow> fst x = ''kind''"
  by (auto simp: kind_errors_def split: if_splits)

lemma fst_summary_errors: "x \<in> set (summary_errors v) \<Longrightarrow> fst x = ''summary''"
  by (auto simp: summary_errors_def split: if_splits)

lemma fst_payload_errors: "x \<in> set (payload_errors v) \<Longrightarrow> fst x = ''payload''"
proof (cases v)
  case None
  assume "x \<in> set (payload_errors v)"
  with None show ?thesis by (simp add: payload_errors_def)
next
  case (Some p)
  assume "x \<in> set (payload_errors v)"
  with Some show ?thesis by (cases p) (auto simp: payload_errors_def split: if_splits)
qed

lemma fst_source_errors: "x \<in> set (source_errors v) \<Longrightarrow> fst x = ''source''"
  by (auto simp: source_errors_def split: if_splits)

lemma kind_errors_empty: "kind_errors v = [] \<longleftrightarrow> v \<noteq> [] \<and> length v \<le> 64"
  by (auto simp: kind_errors_def KIND_MAX_LENGTH_def)

lemma summary_errors_empty:
  "summary_errors v = [] \<longleftrightarrow> length v \<le> 512 \<and> CHR 0x0A \<notin> set v"
  by (auto simp: summary_errors_def SUMMARY_MAX_LENGTH_def)

lemma new_DispatchEntry_Inl:
  "new_DispatchEntry t r kind summary m p source v ts = Inl e \<Longrightarrow>
     e = ValidationError (entry_errors t r kind summary p source) \<and>
     entry_errors t r kind summary p source \<noteq> []"
  by (auto simp: new_DispatchEntry_def entry_errors_def Let_def str_errors_def
           split: option.splits if_splits)

lemma new_DispatchEntry_Inr:
  "new_DispatchEntry t r kind summary m p source v ts = Inr entry \<Longrightarrow>
     entry_errors t r kind summary p source = [] \<and>
     entry_kind entry = kind \<and> entry_summary entry = summary"
  by (auto simp: new_DispatchEntry_def entry_errors_def Let_def
           split: option.splits if_splits)

lemma new_DispatchEntry_ok:
  "entry_errors (Some t) (Some r) kind summary p source = [] \<Longrightarrow>
   \<exists>entry. new_DispatchEntry (Some t) (Some r) kind summary m p source v ts = Inr entry"
  by (simp add: new_DispatchEntry_def entry_errors_def Let_def)

lemma entry_errors_cases:
  assumes "x \<in> set (entry_errors t r kind summary p source)"
  shows "fst x = ''ticket_uuid'' \<or> fst x = ''run_uuid'' \<or> x \<in> set (kind_errors kind) \<or>
         x \<in> set (summary_errors summary) \<or> fst x = ''payload'' \<or> fst x = ''source''"
  using assms fst_str_errors [of x] fst_payload_errors [of x] fst_source_errors [of x]
  unfolding entry_errors_def set_append Un_iff by blast

lemma kind_in_entry_errors:
  "''kind'' \<in> fst ` set (entry_errors t r kind summary p source) \<longleftrightarrow> kind_errors kind \<noteq> []"
proof
  assume "''kind'' \<in> fst ` set (entry_errors t r kind summary p source)"
  then obtain x where x: "x \<in> set (entry_errors t r kind summary p source)" "fst x = ''kind''"
    by auto
  from entry_errors_cases [OF x(1)] x(2) fst_summary_errors [of x summary]
  have "x \<in> set (kind_errors kind)"
    by auto
  then show "kind_errors kind \<noteq> []" by auto
next
  assume "kind_errors kind \<noteq> []"
  then obtain x where x: "x \<in> set (kind_errors kind)"
    by (cases "kind_errors kind") auto
  then have "x \<in> set (entry_errors t r kind summary p source)"
    by (simp add: entry_errors_def)
  with fst_kind_errors [OF x] show "''kind'' \<in> fst ` set (entry_errors t r kind summary p source)"
    by (metis imageI)
qed

lemma summary_in_entry_errors:
  assumes "''summary'' \<in> fst ` set (entry_errors t r kind summary p source)"
  shows "summary_errors summary \<noteq> []"
proof -
  from assms obtain x where x: "x \<in> set (entry_errors t r kind summary p source)" "fst x = ''summary''"
    by auto
  from entry_errors_cases [OF x(1)] x(2) fst_kind_errors [of x kind]
  have "x \<in> set (summary_errors summary)"
    by auto
  then show ?thesis by auto
qed

text \<open>
  Claim C7. In \<open>dispatch\<close> a summary longer than 512 characters becomes its first 509
  characters followed by \<open>...\<close>, 512 characters in all, and every newline is replaced
  by a space before the entry is validated (on a long summary after the truncation). The
  summary that reaches the entry is this normalised one; it never contains a newline,
  the validation of the summary field accepts it, and when the construction of the
  entry fails the summary is not among the fields in error.
\<close>

theorem dispatch_summary_normalised:
  "(length summary > 512 \<longrightarrow>
      replace_newlines (truncate_summary summary) = replace_newlines (take 509 summary) @ ''...'' \<and>
      length (replace_newlines (truncate_summary summary)) = 512) \<and>
   (length summary > 512 \<and> CHR 0x0A \<notin> set summary \<longrightarrow>
      replace_newlines (truncate_summary summary) = take 509 summary @ ''...'') \<and>
   (length summary \<le> 512 \<longrightarrow>
      replace_newlines (truncate_summary summary) =
        map (\<lambda>c. if c = CHR 0x0A then CHR '' '' else c) summary) \<and>
   CHR 0x0A \<notin> set (replace_newlines (truncate_summary summary)) \<and>
   summary_errors (replace_newlines (truncate_summary summary)) = [] \<and>
   (dispatch_entry self now kind summary payload source client_ts skip_redaction = Inr entry \<longrightarrow>
      entry_summary entry = replace_newlines (truncate_summary summary)) \<and>
   (dispatch_entry self now kind summary payload source client_ts skip_redaction = Inl e \<longrightarrow>
      (\<exists>errors. e = ValidationError errors \<and> ''summary'' \<notin> fst ` set errors))"
proof -
  let ?s = "replace_newlines (truncate_summary summary)"
  have long: "?s = replace_newlines (take 509 summary) @ ''...'' \<and> length ?s = 512"
    if "length summary > 512"
    using that by (simp add: truncate_summary_long replace_newlines_def)
  have long_free: "?s = take 509 summary @ ''...''"
    if "length summary > 512" "CHR 0x0A \<notin> set summary"
  proof -
    have "CHR 0x0A \<notin> set (take 509 summary @ ''...'')"
      using that(2) by (auto dest: in_set_takeD)
    then have "replace_newlines (take 509 summary @ ''...'') = take 509 summary @ ''...''"
      by (rule replace_newlines_id)
    with that(1) show ?thesis
      by (simp only: truncate_summary_long)
  qed
  have short: "?s = map (\<lambda>c. if c = CHR 0x0A then CHR '' '' else c) summary"
    if "length summary \<le> 512"
    using that by (simp add: truncate_summary_def SUMMARY_MAX_LENGTH_def replace_newlines_def)
  have ok: "entry_summary entry = ?s"
    if "dispatch_entry self now kind summary payload source client_ts skip_redaction = Inr entry"
    using that new_DispatchEntry_Inr unfolding dispatch_entry_def Let_def by blast
  have bad: "\<exists>errors. e = ValidationError errors \<and> ''summary'' \<notin> fst ` set errors"
    if h: "dispatch_entry self now kind summary payload source client_ts skip_redaction = Inl e"
  proof -
    obtain p where "e = ValidationError
        (entry_errors (dc_ticket_uuid self) (dc_run_uuid self) kind ?s p source)"
      using h new_DispatchEntry_Inl unfolding dispatch_entry_def Let_def by blast
    moreover have "''summary'' \<notin>
        fst ` set (entry_errors (dc_ticket_uuid self) (dc_run_uuid self) kind ?s p source)"
      using summary_in_entry_errors summary_errors_normalised by blast
    ultimately show ?thesis by blast
  qed
  from long long_free short ok bad replace_newlines_free summary_errors_normalised
  show ?thesis by blast
qed

theorem dispatch_summary_normalised_witness:
  "length (replicate 600 (CHR ''x'')) > 512 \<and> CHR 0x0A \<notin> set (replicate 600 (CHR ''x'')) \<and>
   replace_newlines (truncate_summary (replicate 600 (CHR ''x''))) = replicate 509 (CHR ''x'') @ ''...'' \<and>
   length (replace_newlines (truncate_summary (replicate 600 (CHR ''x'')))) = 512 \<and>
   length [CHR ''a'', CHR 0x0A, CHR ''b''] \<le> 512 \<and>
   replace_newlines (truncate_summary [CHR ''a'', CHR 0x0A, CHR ''b'']) = ''a b'' \<and>
   dispatch_entry test_client ''now'' ''text'' [CHR ''a'', CHR 0x0A, CHR ''b''] None ''sdk'' None False
     = Inr \<lparr>entry_ticket_uuid = ''ticket'', entry_run_uuid = ''run'', entry_kind = ''text'',
            entry_summary = ''a b'', entry_message_uuid = None, entry_payload = None,
            entry_source = ''sdk'', entry_schema_version = 1, entry_client_ts = Some ''now''\<rparr> \<and>
   dispatch_entry test_client ''now'' '''' (replicate 600 (CHR ''x'')) None ''sdk'' None False
     = Inl (ValidationError [(''kind'', ''value_error'')]) \<and>
   ''summary'' \<notin> fst ` set [(''kind'', ''value_error'')]"
proof -
  let ?long = "replicate 600 (CHR ''x'')"
  let ?two = "[CHR ''a'', CHR 0x0A, CHR ''b'']"
  let ?entry = "\<lparr>entry_ticket_uuid = ''ticket'', entry_run_uuid = ''run'', entry_kind = ''text'',
            entry_summary = ''a b'', entry_message_uuid = None, entry_payload = None,
            entry_source = ''sdk'', entry_schema_version = 1, entry_client_ts = Some ''now''\<rparr>"
  let ?e = "ValidationError [(''kind'', ''value_error'')]"
  have h1: "length ?long > 512" and h2: "CHR 0x0A \<notin> set ?long"
    by simp_all
  have h3: "length ?two \<le> 512"
    by simp
  have h4: "dispatch_entry test_client ''now'' ''text'' ?two None ''sdk'' None False = Inr ?entry"
    by (simp add: dispatch_entry_def test_client_def new_DispatchClient_def truncate_summary_def
          replace_newlines_def new_DispatchEntry_def entry_errors_def str_errors_def
          kind_errors_def summary_errors_def payload_errors_def source_errors_def
          SUMMARY_MAX_LENGTH_def KIND_MAX_LENGTH_def SOURCE_MAX_LENGTH_def SCHEMA_VERSION_def
          truthy_def)
  have h5: "dispatch_entry test_client ''now'' '''' ?long None ''sdk'' None False = Inl ?e"
    by (simp add: dispatch_entry_def test_client_def new_DispatchClient_def
          new_DispatchEntry_def entry_errors_def str_errors_def summary_errors_normalised
          kind_errors_def payload_errors_def source_errors_def
          KIND_MAX_LENGTH_def SOURCE_MAX_LENGTH_def SCHEMA_VERSION_def truthy_def)
  note long = dispatch_summary_normalised [of ?long test_client "''now''" "''''" None "''sdk''"
      None False ?entry ?e]
  note two = dispatch_summary_normalised [of ?two test_client "''now''" "''text''" None "''sdk''"
      None False ?entry ?e]
  from long h1 h2 have r1: "replace_newlines (truncate_summary ?long) = take 509 ?long @ ''...''"
    by blast
  from long h1 have r2: "length (replace_newlines (truncate_summary ?long)) = 512"
    by blast
  from long h5 have r3: "\<exists>errors. ?e = ValidationError errors \<and> ''summary'' \<notin> fst ` set errors"
    by blast
  from two h3 have r4: "replace_newlines (truncate_summary ?two) =
      map (\<lambda>c. if c = CHR 0x0A then CHR '' '' else c) ?two"
    by blast
  from r1 have r1': "replace_newlines (truncate_summary ?long) = replicate 509 (CHR ''x'') @ ''...''"
    by simp
  from r3 have r3': "''summary'' \<notin> fst ` set [(''kind'', ''value_error'')]"
    by simp
  from r4 have r4': "replace_newlines (truncate_summary ?two) = ''a b''"
    by simp
  from h1 h2 r1' r2 h3 r4' h4 h5 r3' show ?thesis
    by (intro conjI)
qed

text \<open>
  Claim C8. The construction of a \<open>DispatchEntry\<close> reports the field \<open>kind\<close> in its
  validation error exactly when \<open>kind\<close> is empty or longer than 64 characters; an entry
  that was constructed has a kind that is not empty and a summary without newline.
\<close>

theorem DispatchEntry_kind_validation:
  "((\<exists>errors. new_DispatchEntry ticket_uuid run_uuid kind summary message_uuid payload source
                 schema_version client_ts = Inl (ValidationError errors) \<and>
               ''kind'' \<in> fst ` set errors)
      \<longleftrightarrow> kind = [] \<or> length kind > 64) \<and>
   (new_DispatchEntry ticket_uuid run_uuid kind summary message_uuid payload source
      schema_version client_ts = Inr entry \<longrightarrow>
        entry_kind entry = kind \<and> entry_summary entry = summary \<and>
        entry_kind entry \<noteq> [] \<and> length (entry_kind entry) \<le> 64 \<and>
        CHR 0x0A \<notin> set (entry_summary entry))"
proof -
  let ?new = "new_DispatchEntry ticket_uuid run_uuid kind summary message_uuid payload source
                 schema_version client_ts"
  let ?errors = "entry_errors ticket_uuid run_uuid kind summary payload source"
  have "kind = [] \<or> length kind > 64"
    if "?new = Inl (ValidationError errors)" "''kind'' \<in> fst ` set errors" for errors
  proof -
    from new_DispatchEntry_Inl [OF that(1)] have "errors = ?errors" by simp
    with that(2) have "kind_errors kind \<noteq> []" by (simp add: kind_in_entry_errors)
    then show ?thesis using kind_errors_empty [of kind] by auto
  qed
  moreover have "\<exists>errors. ?new = Inl (ValidationError errors) \<and> ''kind'' \<in> fst ` set errors"
    if "kind = [] \<or> length kind > 64"
  proof -
    from that have k: "kind_errors kind \<noteq> []" using kind_errors_empty [of kind] by auto
    then have "?errors \<noteq> []" by (simp add: entry_errors_def)
    then have "?new = Inl (ValidationError ?errors)"
      by (cases ticket_uuid; cases run_uuid) (simp_all add: new_DispatchEntry_def Let_def)
    with k show ?thesis using kind_in_entry_errors by blast
  qed
  moreover have "entry_kind entry = kind \<and> entry_summary entry = summary \<and>
        entry_kind entry \<noteq> [] \<and> length (entry_kind entry) \<le> 64 \<and>
        CHR 0x0A \<notin> set (entry_summary entry)"
    if "?new = Inr entry"
  proof -
    from new_DispatchEntry_Inr [OF that]
    have e: "?errors = []" "entry_kind entry = kind" "entry_summary entry = summary"
      by simp_all
    from e(1) have "kind_errors kind = []" "summary_errors summary = []"
      by (simp_all add: entry_errors_def)
    with e(2,3) show ?thesis
      by (simp add: kind_errors_empty summary_errors_empty)
  qed
  ultimately show ?thesis by blast
qed

theorem DispatchEntry_kind_validation_witness:
  "new_DispatchEntry (Some ''ticket-123'') (Some ''run-456'') '''' ''Test'' None None ''sdk'' 1 None
     = Inl (ValidationError [(''kind'', ''value_error'')]) \<and>
   ''kind'' \<in> fst ` set [(''kind'', ''value_error'')] \<and>
   new_DispatchEntry (Some ''ticket-123'') (Some ''run-456'') ''text'' ''Test message'' None None
       ''sdk'' 1 None
     = Inr \<lparr>entry_ticket_uuid = ''ticket-123'', entry_run_uuid = ''run-456'',
            entry_kind = ''text'', entry_summary = ''Test message'', entry_message_uuid = None,
            entry_payload = None, entry_source = ''sdk'', entry_schema_version = 1,
            entry_client_ts = None\<rparr> \<and>
   ''text'' \<noteq> [] \<and> CHR 0x0A \<notin> set ''Test message''"
proof -
  let ?entry = "\<lparr>entry_ticket_uuid = ''ticket-123'', entry_run_uuid = ''run-456'',
            entry_kind = ''text'', entry_summary = ''Test message'', entry_message_uuid = None,
            entry_payload = None, entry_source = ''sdk'', entry_schema_version = 1,
            entry_client_ts = None\<rparr>"
  have bad: "new_DispatchEntry (Some ''ticket-123'') (Some ''run-456'') '''' ''Test'' None None
               ''sdk'' 1 None = Inl (ValidationError [(''kind'', ''value_error'')])"
    by (simp add: new_DispatchEntry_def entry_errors_def str_errors_def kind_errors_def
          summary_errors_def payload_errors_def source_errors_def SUMMARY_MAX_LENGTH_def
          KIND_MAX_LENGTH_def SOURCE_MAX_LENGTH_def)
  have good: "new_DispatchEntry (Some ''ticket-123'') (Some ''run-456'') ''text'' ''Test message''
                None None ''sdk'' 1 None = Inr ?entry"
    by (simp add: new_DispatchEntry_def entry_errors_def str_errors_def kind_errors_def
          summary_errors_def payload_errors_def source_errors_def SUMMARY_MAX_LENGTH_def
          KIND_MAX_LENGTH_def SOURCE_MAX_LENGTH_def)
  from DispatchEntry_kind_validation [of "Some ''ticket-123''" "Some ''run-456''" "''''" "''Test''"
         None None "''sdk''" 1 None ?entry] bad
  have k: "'''' = [] \<or> length '''' > 64"
    by blast
  from DispatchEntry_kind_validation [of "Some ''ticket-123''" "Some ''run-456''" "''text''"
         "''Test message''" None None "''sdk''" 1 None ?entry] good
  have i: "entry_kind ?entry \<noteq> [] \<and> CHR 0x0A \<notin> set (entry_summary ?entry)"
    by blast
  from bad good k i show ?thesis
    by simp
qed

section \<open>Properties of client construction\<close>

lemmas py_int_defs =
  py_int_def strip_def py_isspace_def parse_unsigned_def is_digit_def digit_val_def

lemma default_timeout_parses: "py_int (py_str_int DEFAULT_TIMEOUT_MS) = Some 1500"
proof -
  have "py_str_int DEFAULT_TIMEOUT_MS = ''1500''"
    by (simp add: DEFAULT_TIMEOUT_MS_def py_str_int_def dec_nat.simps hex_digit_def)
  then show ?thesis
    by (simp add: py_int_defs)
qed

lemma default_max_bytes_parses: "py_int (py_str_int DEFAULT_MAX_BYTES) = Some 65536"
proof -
  have "py_str_int DEFAULT_MAX_BYTES = ''65536''"
    by (simp add: DEFAULT_MAX_BYTES_def PAYLOAD_MAX_SIZE_BYTES_def py_str_int_def
          dec_nat.simps hex_digit_def)
  then show ?thesis
    by (simp add: py_int_defs)
qed

lemma DispatchClient_from_env_Inl:
  "DispatchClient_from_env environ = Inl e \<longleftrightarrow>
     e = ValueError \<and>
     ((\<exists>s. environ ''FULCRUM_DISPATCH_TIMEOUT_MS'' = Some s \<and> py_int s = None) \<or>
      (\<exists>s. environ ''FULCRUM_DISPATCH_MAX_BYTES'' = Some s \<and> py_int s = None))"
  unfolding DispatchClient_from_env_def Let_def environ_get_def
  using default_timeout_parses default_max_bytes_parses
  by (auto split: option.splits)

lemma DispatchClient_from_env_Inr:
  assumes "DispatchClient_from_env environ = Inr c"
  shows "(case environ ''FULCRUM_DISPATCH_TIMEOUT_MS'' of
            None \<Rightarrow> dc_timeout_ms c = 1500 | Some s \<Rightarrow> py_int s = Some (dc_timeout_ms c)) \<and>
         (case environ ''FULCRUM_DISPATCH_MAX_BYTES'' of
            None \<Rightarrow> dc_max_bytes c = 65536 | Some s \<Rightarrow> py_int s = Some (dc_max_bytes c))"
  using assms default_timeout_parses default_max_bytes_parses
  unfolding DispatchClient_from_env_def Let_def environ_get_def new_DispatchClient_def
  by (auto split: option.splits)

lemma ImprovementsClient_from_env_Inl:
  "ImprovementsClient_from_env environ = Inl e \<longleftrightarrow>
     e = ValueError \<and>
     ((\<exists>s. environ ''FULCRUM_IMPROVEMENTS_TIMEOUT_MS'' = Some s \<and> py_int s = None) \<or>
      (\<exists>s. environ ''FULCRUM_IMPROVEMENTS_MAX_BYTES'' = Some s \<and> py_int s = None))"
  unfolding ImprovementsClient_from_env_def Let_def environ_get_def
  using default_timeout_parses default_max_bytes_parses
  by (auto split: option.splits)

lemma ImprovementsClient_from_env_Inr:
  assumes "ImprovementsClient_from_env environ = Inr c"
  shows "(case environ ''FULCRUM_IMPROVEMENTS_TIMEOUT_MS'' of
            None \<Rightarrow> ic_timeout_ms c = 1500 | Some s \<Rightarrow> py_int s = Some (ic_timeout_ms c)) \<and>
         (case environ ''FULCRUM_IMPROVEMENTS_MAX_BYTES'' of
            None \<Rightarrow> ic_max_bytes c = 65536 | Some s \<Rightarrow> py_int s = Some (ic_max_bytes c))"
  using assms default_timeout_parses default_max_bytes_parses
  unfolding ImprovementsClient_from_env_def Let_def environ_get_def new_ImprovementsClient_def
  by (auto split: option.splits)

text \<open>
  Claim C9. \<open>from_env\<close> of either client raises exactly when the timeout variable or the
  maximum-size variable is set to a string that \<open>int\<close> rejects, and then it raises
  \<open>ValueError\<close>, which nothing catches: the error that the specification files under
  configuration errors. A client that is returned holds the parsed value of each variable
  that is set and the default (1500, 65536) of each that is not; no default stands in
  for a value that is set.
\<close>

theorem from_env_malformed_raises:
  "(DispatchClient_from_env environ = Inl e \<longleftrightarrow>
      e = ValueError \<and>
      ((\<exists>s. environ ''FULCRUM_DISPATCH_TIMEOUT_MS'' = Some s \<and> py_int s = None) \<or>
       (\<exists>s. environ ''FULCRUM_DISPATCH_MAX_BYTES'' = Some s \<and> py_int s = None))) \<and>
   (DispatchClient_from_env environ = Inr dc \<longrightarrow>
      (case environ ''FULCRUM_DISPATCH_TIMEOUT_MS'' of
         None \<Rightarrow> dc_timeout_ms dc = 1500 | Some s \<Rightarrow> py_int s = Some (dc_timeout_ms dc)) \<and>
      (case environ ''FULCRUM_DISPATCH_MAX_BYTES'' of
         None \<Rightarrow> dc_max_bytes dc = 65536 | Some s \<Rightarrow> py_int s = Some (dc_max_bytes dc))) \<and>
   get_dispatch_client environ = DispatchClient_from_env environ \<and>
   (ImprovementsClient_from_env environ = Inl e \<longleftrightarrow>
      e = ValueError \<and>
      ((\<exists>s. environ ''FULCRUM_IMPROVEMENTS_TIMEOUT_MS'' = Some s \<and> py_int s = None) \<or>
       (\<exists>s. environ ''FULCRUM_IMPROVEMENTS_MAX_BYTES'' = Some s \<and> py_int s = None))) \<and>
   (ImprovementsClient_from_env environ = Inr ic \<longrightarrow>
      (case environ ''FULCRUM_IMPROVEMENTS_TIMEOUT_MS'' of
         None \<Rightarrow> ic_timeout_ms ic = 1500 | Some s \<Rightarrow> py_int s = Some (ic_timeout_ms ic)) \<and>
      (case environ ''FULCRUM_IMPROVEMENTS_MAX_BYTES'' of
         None \<Rightarrow> ic_max_bytes ic = 65536 | Some s \<Rightarrow> py_int s = Some (ic_max_bytes ic))) \<and>
   get_improvements_client environ = ImprovementsClient_from_env environ"
proof (intro conjI impI)
  show "DispatchClient_from_env environ = Inl e \<longleftrightarrow>
      e = ValueError \<and>
      ((\<exists>s. environ ''FULCRUM_DISPATCH_TIMEOUT_MS'' = Some s \<and> py_int s = None) \<or>
       (\<exists>s. environ ''FULCRUM_DISPATCH_MAX_BYTES'' = Some s \<and> py_int s = None))"
    by (rule DispatchClient_from_env_Inl)
  show "ImprovementsClient_from_env environ = Inl e \<longleftrightarrow>
      e = ValueError \<and>
      ((\<exists>s. environ ''FULCRUM_IMPROVEMENTS_TIMEOUT_MS'' = Some s \<and> py_int s = None) \<or>
       (\<exists>s. environ ''FULCRUM_IMPROVEMENTS_MAX_BYTES'' = Some s \<and> py_int s = None))"
    by (rule ImprovementsClient_from_env_Inl)
  show "get_dispatch_client environ = DispatchClient_from_env environ"
    by (simp add: get_dispatch_client_def)
  show "get_improvements_client environ = ImprovementsClient_from_env environ"
    by (simp add: get_improvements_client_def)
next
  assume "DispatchClient_from_env environ = Inr dc"
  from DispatchClient_from_env_Inr [OF this]
  show "case environ ''FULCRUM_DISPATCH_TIMEOUT_MS'' of
         None \<Rightarrow> dc_timeout_ms dc = 1500 | Some s \<Rightarrow> py_int s = Some (dc_timeout_ms dc)"
    and "case environ ''FULCRUM_DISPATCH_MAX_BYTES'' of
         None \<Rightarrow> dc_max_bytes dc = 65536 | Some s \<Rightarrow> py_int s = Some (dc_max_bytes dc)"
    by blast+
next
  assume "ImprovementsClient_from_env environ = Inr ic"
  from ImprovementsClient_from_env_Inr [OF this]
  show "case environ ''FULCRUM_IMPROVEMENTS_TIMEOUT_MS'' of
         None \<Rightarrow> ic_timeout_ms ic = 1500 | Some s \<Rightarrow> py_int s = Some (ic_timeout_ms ic)"
    and "case environ ''FULCRUM_IMPROVEMENTS_MAX_BYTES'' of
         None \<Rightarrow> ic_max_bytes ic = 65536 | Some s \<Rightarrow> py_int s = Some (ic_max_bytes ic)"
    by blast+
qed

theorem from_env_malformed_raises_witness:
  "DispatchClient_from_env (test_environ(''FULCRUM_DISPATCH_TIMEOUT_MS'' \<mapsto> ''not_a_number''))
     = Inl ValueError \<and>
   ImprovementsClient_from_env (test_environ(''FULCRUM_IMPROVEMENTS_MAX_BYTES'' \<mapsto> ''invalid''))
     = Inl ValueError \<and>
   DispatchClient_from_env (test_environ(''FULCRUM_DISPATCH_TIMEOUT_MS'' \<mapsto> ''3000''))
     = Inr (new_DispatchClient (Some ''http://localhost:3000/api/dispatch'') (Some ''test-token'')
              (Some ''ticket-123'') (Some ''run-456'') None 3000 65536 False) \<and>
   ImprovementsClient_from_env test_environ
     = Inr (new_ImprovementsClient None (Some ''test-token'') None (Some ''ticket-123'')
              (Some ''run-456'') 1500 65536 False)"
proof -
  let ?bad = "test_environ(''FULCRUM_DISPATCH_TIMEOUT_MS'' \<mapsto> ''not_a_number'')"
  let ?bad' = "test_environ(''FULCRUM_IMPROVEMENTS_MAX_BYTES'' \<mapsto> ''invalid'')"
  let ?good = "test_environ(''FULCRUM_DISPATCH_TIMEOUT_MS'' \<mapsto> ''3000'')"
  let ?dc = "new_DispatchClient (Some ''http://localhost:3000/api/dispatch'') (Some ''test-token'')
              (Some ''ticket-123'') (Some ''run-456'') None 3000 65536 False"
  let ?ic = "new_ImprovementsClient None (Some ''test-token'') None (Some ''ticket-123'')
              (Some ''run-456'') 1500 65536 False"
  have b1: "?bad ''FULCRUM_DISPATCH_TIMEOUT_MS'' = Some ''not_a_number''"
    by simp
  have b2: "py_int ''not_a_number'' = None"
    by (simp add: py_int_defs)
  have b3: "?bad' ''FULCRUM_IMPROVEMENTS_MAX_BYTES'' = Some ''invalid''"
    by simp
  have b4: "py_int ''invalid'' = None"
    by (simp add: py_int_defs)
  have g1: "py_int ''3000'' = Some 3000"
    by (simp add: py_int_defs)
  have g2: "DispatchClient_from_env ?good = Inr ?dc"
    by (simp add: DispatchClient_from_env_def environ_get_def test_environ_def g1
          default_max_bytes_parses)
  have g3: "ImprovementsClient_from_env test_environ = Inr ?ic"
    by (simp add: ImprovementsClient_from_env_def environ_get_def test_environ_def
          default_timeout_parses default_max_bytes_parses py_or_def truthy_def)
  from from_env_malformed_raises [of ?bad ValueError ?dc ?ic] b1 b2
  have r1: "DispatchClient_from_env ?bad = Inl ValueError"
    by blast
  from from_env_malformed_raises [of ?bad' ValueError ?dc ?ic] b3 b4
  have r2: "ImprovementsClient_from_env ?bad' = Inl ValueError"
    by blast
  from from_env_malformed_raises [of ?good ValueError ?dc ?ic] g2
  have r3: "py_int ''3000'' = Some (dc_timeout_ms ?dc) \<and> dc_max_bytes ?dc = 65536"
    by (simp add: test_environ_def)
  from from_env_malformed_raises [of test_environ ValueError ?dc ?ic] g3
  have r4: "ic_timeout_ms ?ic = 1500 \<and> ic_max_bytes ?ic = 65536"
    by (simp add: test_environ_def)
  from r1 r2 g2 g3 show ?thesis
    by (intro conjI)
qed

section \<open>Properties of the clients\<close>

lemma valid_fields_idem: "valid_fields (valid_fields kwargs) = valid_fields kwargs"
  by (simp add: valid_fields_def)

lemma valid_fields_empty_iff:
  "valid_fields kwargs = [] \<longleftrightarrow>
     (\<forall>(k, v) \<in> set kwargs. k \<notin> {''title'', ''description'', ''status''} \<or> v = PNone)"
  by (auto simp: valid_fields_def filter_empty_conv)

lemma valid_fields_subset:
  "(k, v) \<in> set (valid_fields kwargs) \<Longrightarrow>
     k \<in> {''title'', ''description'', ''status''} \<and> v \<noteq> PNone \<and> (k, v) \<in> set kwargs"
  by (auto simp: valid_fields_def)

lemma optional_str_Some:
  "optional_str kw f m = (es, Some v) \<Longrightarrow> (KStr f, PStr v) \<in> set kw"
  unfolding optional_str_def
  by (auto split: option.splits payload.splits if_splits dest: map_of_SomeD)

lemma optional_status_Some:
  "optional_status kw = (es, Some v) \<Longrightarrow> (KStr ''status'', PStr v) \<in> set kw"
  unfolding optional_status_def
  by (auto split: option.splits payload.splits if_splits dest: map_of_SomeD)

lemma opt_item_set: "x \<in> set (opt_item f v) \<Longrightarrow> \<exists>s. v = Some s \<and> x = (KStr f, PStr s)"
  by (auto simp: opt_item_def split: option.splits)

lemma ImprovementUpdate_dump_items:
  assumes "ImprovementUpdate_dump kw = Inr dump" and "x \<in> set dump"
  shows "x \<in> set kw"
proof -
  obtain e1 t where t: "optional_str kw ''title'' (Some 256) = (e1, t)"
    by (cases "optional_str kw ''title'' (Some 256)")
  obtain e2 d where d: "optional_str kw ''description'' None = (e2, d)"
    by (cases "optional_str kw ''description'' None")
  obtain e3 s where s: "optional_status kw = (e3, s)"
    by (cases "optional_status kw")
  from assms(1) t d s
  have "dump = opt_item ''title'' t @ opt_item ''description'' d @ opt_item ''status'' s"
    by (simp add: ImprovementUpdate_dump_def split: if_splits)
  with assms(2) consider "x \<in> set (opt_item ''title'' t)"
    | "x \<in> set (opt_item ''description'' d)" | "x \<in> set (opt_item ''status'' s)"
    by auto
  then show ?thesis
  proof cases
    case 1
    then show ?thesis using opt_item_set optional_str_Some t by blast
  next
    case 2
    then show ?thesis using opt_item_set optional_str_Some d by blast
  next
    case 3
    then show ?thesis using opt_item_set optional_status_Some s by blast
  qed
qed

lemma request_ok_requests: "snd (request_ok net request) = [request]"
  by (simp add: request_ok_def split: sum.splits)

lemma snd_except_Exception: "snd (except_Exception r d) = snd r"
  by (cases r) (auto simp: except_Exception_def split: sum.splits)

lemma fst_except_Exception: "fst (except_Exception r d) \<noteq> Inl e"
  by (cases r) (auto simp: except_Exception_def split: sum.splits)

lemma update_improvement_requests:
  assumes "request \<in> set (snd (update_improvement self net uuid kwargs))"
  shows "\<exists>dump. ImprovementUpdate_dump (map (\<lambda>(k, v). (KStr k, v)) (valid_fields kwargs)) = Inr dump \<and>
           req_method request = PATCH \<and>
           req_json request = Some (PDict ((KStr ''run_uuid'', opt_payload (ic_run_uuid self)) # dump))"
proof (cases "ImprovementUpdate_dump (map (\<lambda>(k, v). (KStr k, v)) (valid_fields kwargs))")
  case (Inl e)
  with assms show ?thesis
    by (simp add: update_improvement_def snd_except_Exception split: if_splits)
next
  case (Inr dump)
  with assms show ?thesis
    by (simp add: update_improvement_def snd_except_Exception request_ok_requests
          split: if_splits)
qed

text \<open>
  Claim C10. \<open>update_improvement\<close> returns \<open>False\<close> without any request when no
  keyword argument is named \<open>title\<close>, \<open>description\<close> or \<open>status\<close> with a value other than
  \<open>None\<close>. Every other argument is dropped: the call behaves as the call with the valid
  arguments alone, and the body of a request holds, besides \<open>run_uuid\<close>, only items
  that were supplied under one of the three names with a value other than \<open>None\<close>.
  (On a client that is not enabled the result is \<open>False\<close> without a request as well.)
\<close>

theorem update_improvement_drops_fields:
  "((\<forall>(k, v) \<in> set kwargs. k \<notin> {''title'', ''description'', ''status''} \<or> v = PNone) \<longrightarrow>
      update_improvement self net uuid kwargs = (Inr False, [])) \<and>
   update_improvement self net uuid kwargs =
     update_improvement self net uuid
       (filter (\<lambda>(k, v). k \<in> {''title'', ''description'', ''status''} \<and> v \<noteq> PNone) kwargs) \<and>
   (\<forall>request \<in> set (snd (update_improvement self net uuid kwargs)).
      \<exists>items. req_json request =
                 Some (PDict ((KStr ''run_uuid'', opt_payload (ic_run_uuid self)) # items)) \<and>
              (\<forall>(key, v) \<in> set items.
                 \<exists>k. key = KStr k \<and> k \<in> {''title'', ''description'', ''status''} \<and>
                     v \<noteq> PNone \<and> (k, v) \<in> set kwargs))"
proof (intro conjI impI ballI)
  assume "\<forall>(k, v) \<in> set kwargs. k \<notin> {''title'', ''description'', ''status''} \<or> v = PNone"
  then have "valid_fields kwargs = []"
    by (simp add: valid_fields_empty_iff)
  then show "update_improvement self net uuid kwargs = (Inr False, [])"
    by (simp add: update_improvement_def except_Exception_def)
next
  have "update_improvement self net uuid kwargs =
          update_improvement self net uuid (valid_fields kwargs)"
    by (simp add: update_improvement_def valid_fields_idem)
  then show "update_improvement self net uuid kwargs =
     update_improvement self net uuid
       (filter (\<lambda>(k, v). k \<in> {''title'', ''description'', ''status''} \<and> v \<noteq> PNone) kwargs)"
    by (simp add: valid_fields_def)
next
  fix request
  assume "request \<in> set (snd (update_improvement self net uuid kwargs))"
  from update_improvement_requests [OF this] obtain dump where
    dump: "ImprovementUpdate_dump (map (\<lambda>(k, v). (KStr k, v)) (valid_fields kwargs)) = Inr dump"
    and body: "req_json request =
                 Some (PDict ((KStr ''run_uuid'', opt_payload (ic_run_uuid self)) # dump))"
    by blast
  have "\<exists>k. key = KStr k \<and> k \<in> {''title'', ''description'', ''status''} \<and>
             v \<noteq> PNone \<and> (k, v) \<in> set kwargs"
    if "(key, v) \<in> set dump" for key v
  proof -
    from ImprovementUpdate_dump_items [OF dump that]
    obtain k where "key = KStr k" "(k, v) \<in> set (valid_fields kwargs)"
      by auto
    with valid_fields_subset [of k v kwargs] show ?thesis
      by blast
  qed
  with body show "\<exists>items. req_json request =
                 Some (PDict ((KStr ''run_uuid'', opt_payload (ic_run_uuid self)) # items)) \<and>
              (\<forall>(key, v) \<in> set items.
                 \<exists>k. key = KStr k \<and> k \<in> {''title'', ''description'', ''status''} \<and>
                     v \<noteq> PNone \<and> (k, v) \<in> set kwargs)"
    by blast
qed

theorem update_improvement_drops_fields_witness:
  "update_improvement test_improvements_client respond_200 ''imp-1''
     [(''priority'', PStr ''high''), (''title'', PNone)] = (Inr False, []) \<and>
   update_improvement test_improvements_client respond_200 ''imp-1''
     [(''title'', PStr ''New title''), (''bogus'', PInt 1), (''status'', PNone)] =
     (Inr True,
      [\<lparr>req_method = PATCH, req_url = ''http://test/improvements/imp-1'', req_params = [],
        req_json = Some (PDict [(KStr ''run_uuid'', PStr ''run''),
                                (KStr ''title'', PStr ''New title'')]),
        req_headers = [(''Authorization'', ''Bearer token''),
                       (''Content-Type'', ''application/json'')],
        req_timeout_ms = 1500\<rparr>])"
proof -
  let ?none = "[(''priority'', PStr ''high''), (''title'', PNone)]"
  let ?some = "[(''title'', PStr ''New title''), (''bogus'', PInt 1), (''status'', PNone)]"
  have h: "\<forall>(k, v) \<in> set ?none. k \<notin> {''title'', ''description'', ''status''} \<or> v = PNone"
    by simp
  have v: "valid_fields ?some = [(''title'', PStr ''New title'')]"
    by (simp add: valid_fields_def)
  have s: "update_improvement test_improvements_client respond_200 ''imp-1'' ?some =
     (Inr True,
      [\<lparr>req_method = PATCH, req_url = ''http://test/improvements/imp-1'', req_params = [],
        req_json = Some (PDict [(KStr ''run_uuid'', PStr ''run''),
                                (KStr ''title'', PStr ''New title'')]),
        req_headers = [(''Authorization'', ''Bearer token''),
                       (''Content-Type'', ''application/json'')],
        req_timeout_ms = 1500\<rparr>])"
    by (simp add: update_improvement_def v test_improvements_client_def
          new_ImprovementsClient_def truthy_def except_Exception_def ImprovementUpdate_dump_def
          optional_str_def optional_status_def opt_item_def request_ok_def respond_200_def
          is_success_def format_opt_def opt_payload_def get_headers_def)
  from update_improvement_drops_fields [of ?none test_improvements_client respond_200 "''imp-1''"] h
  have "update_improvement test_improvements_client respond_200 ''imp-1'' ?none = (Inr False, [])"
    by blast
  with s show ?thesis
    by (intro conjI)
qed

lemma dispatch_noop:
  "\<not> dc_enabled self \<Longrightarrow>
     dispatch self net now kind summary payload source client_ts skip_redaction = (Inr False, [])"
  by (simp add: dispatch_def)

lemma dispatch_never_raises:
  "fst (dispatch self net now kind summary payload source client_ts skip_redaction) \<noteq> Inl e"
  by (simp add: dispatch_def fst_except_Exception)

lemma dispatch_helpers_noop:
  assumes "\<not> dc_enabled self"
  shows "dispatch_text self net now summary text = (Inr False, [])"
    and "dispatch_json self net now summary payload = (Inr False, [])"
    and "dispatch_api_call self net now summary service operation details = (Inr False, [])"
    and "dispatch_external_ref self net now summary provider ref_type ref_id url = (Inr False, [])"
    and "dispatch_db self net now summary operation table rows query = (Inr False, [])"
  using assms
  by (simp_all add: dispatch_text_def dispatch_json_def dispatch_api_call_def
        dispatch_external_ref_def dispatch_db_def dispatch_noop Let_def)

lemma dispatch_helpers_never_raise:
  "fst (dispatch_text self net now summary text) \<noteq> Inl e"
  "fst (dispatch_json self net now summary payload) \<noteq> Inl e"
  "fst (dispatch_api_call self net now summary service operation details) \<noteq> Inl e"
  "fst (dispatch_external_ref self net now summary provider ref_type ref_id url) \<noteq> Inl e"
  "fst (dispatch_db self net now summary operation table rows query) \<noteq> Inl e"
  by (simp_all add: dispatch_text_def dispatch_json_def dispatch_api_call_def
        dispatch_external_ref_def dispatch_db_def dispatch_never_raises Let_def)

lemma dispatch_model_dumped:
  assumes "model_dump model = Inr data"
  shows "fst (dispatch_model self net now summary model input_summary) \<noteq> Inl e"
    and "\<not> dc_enabled self \<Longrightarrow>
           dispatch_model self net now summary model input_summary = (Inr False, [])"
  using assms by (simp_all add: dispatch_model_def dispatch_never_raises dispatch_noop Let_def)

lemma improvements_noop:
  assumes "\<not> ic_enabled self"
  shows "list_improvements self net project_uuid = (Inr [], [])"
    and "create_improvement self net title description dedupe_key status = (Inr False, [])"
    and "update_improvement self net uuid kwargs = (Inr False, [])"
    and "delete_improvement self net uuid = (Inr False, [])"
    and "emit_improvement_event self net improvement_uuid action payload = (Inr False, [])"
  using assms
  by (simp_all add: list_improvements_def create_improvement_def update_improvement_def
        delete_improvement_def emit_improvement_event_def)

lemma improvements_never_raise:
  "fst (list_improvements self net project_uuid) \<noteq> Inl e"
  "fst (create_improvement self net title description dedupe_key status) \<noteq> Inl e"
  "fst (update_improvement self net uuid kwargs) \<noteq> Inl e"
  "fst (delete_improvement self net uuid) \<noteq> Inl e"
  "fst (emit_improvement_event self net improvement_uuid action payload) \<noteq> Inl e"
  by (simp_all add: list_improvements_def create_improvement_def update_improvement_def
        delete_improvement_def emit_improvement_event_def fst_except_Exception)

lemma truthy_iff: "truthy v \<longleftrightarrow> (\<exists>s. v = Some s \<and> s \<noteq> [])"
  by (cases v) (simp_all add: truthy_def)

lemma DispatchClient_enabled_iff:
  "dc_enabled (new_DispatchClient dispatch_url dispatch_token ticket_uuid run_uuid message_uuid
                 timeout_ms max_bytes debug) \<longleftrightarrow>
     truthy dispatch_url \<and> truthy dispatch_token \<and> truthy ticket_uuid \<and> truthy run_uuid"
  by (simp add: new_DispatchClient_def)

lemma ImprovementsClient_enabled_iff:
  "ic_enabled (new_ImprovementsClient improvements_url run_token project_uuid ticket_uuid
                 run_uuid timeout_ms max_bytes debug) \<longleftrightarrow>
     truthy improvements_url \<and> truthy run_token \<and> truthy run_uuid"
  by (simp add: new_ImprovementsClient_def)

text \<open>
  Claim C4 (no public operation lets an exception reach its caller). Every operation
  that is \<open>dispatch\<close> or starts with its \<open>try\<close> block returns a result
  (\<open>dispatch_never_raises\<close>, \<open>dispatch_helpers_never_raise\<close>,
  \<open>improvements_never_raise\<close>), and so does \<open>dispatch_model\<close> when the model can be
  dumped (\<open>dispatch_model_dumped\<close>). On an enabled client, \<open>dispatch_model\<close> with a model
  whose dump raises lets that exception through, without a request: the dump is
  evaluated before \<open>dispatch\<close> is called, outside every handler.
\<close>

theorem dispatch_model_raises:
  "dc_enabled test_client \<and>
   dispatch_model test_client respond_200 ''2024-01-01T00:00:00Z'' ''Validated upload''
     unserialisable_model None = (Inl PydanticSerializationError, [])"
  by (simp add: test_client_def new_DispatchClient_def truthy_def dispatch_model_def
        unserialisable_model_def)


text \<open>
  Claim C5 (a client without configuration is not enabled, and every operation on it
  returns its no-op result without a request). The flag is the conjunction of the
  required fields being non-empty (\<open>DispatchClient_enabled_iff\<close>,
  \<open>ImprovementsClient_enabled_iff\<close>), and the operations return \<open>False\<close> or the empty
  list without a request (\<open>dispatch_noop\<close>, \<open>dispatch_helpers_noop\<close>,
  \<open>improvements_noop\<close>, \<open>dispatch_model_dumped\<close>). On the client without configuration
  \<open>dispatch\<close> returns \<open>False\<close>, but \<open>dispatch_model\<close> with a model whose dump raises
  raises instead of returning \<open>False\<close>.
\<close>

theorem noop_dispatch_model_raises:
  "\<not> dc_enabled noop_client \<and>
   dispatch noop_client respond_200 ''2024-01-01T00:00:00Z'' ''model'' ''Validated upload''
     None ''sdk'' None False = (Inr False, []) \<and>
   dispatch_model noop_client respond_200 ''2024-01-01T00:00:00Z'' ''Validated upload''
     unserialisable_model None = (Inl PydanticSerializationError, [])"
  by (simp add: noop_client_def new_DispatchClient_def truthy_def dispatch_model_def
        unserialisable_model_def dispatch_def)

section \<open>Properties of redaction on a store\<close>

text \<open>
  A call of \<open>_redact_recursive\<close> or \<open>_deep_copy\<close> leaves every object that existed before
  it as it was: the store after the call begins with the store before it. The loop of the
  dictionary branch writes to \<open>result\<close> only, which the call itself has created.
\<close>

lemma take_prefix_nth:
  "take (length h) h' = h \<Longrightarrow> a < length h \<Longrightarrow> h' ! a = h ! a"
  by (metis nth_take)

lemma take_prefix_length: "take (length h) h' = h \<Longrightarrow> length h \<le> length h'"
  by (metis length_take min_def nat_le_linear)

lemma take_prefix_take:
  assumes "take (length h) h' = h" and "b \<le> length h"
  shows "take b h' = take b h"
proof -
  have "take b (take (length h) h') = take b h'"
    using assms(2) by (simp add: min_def)
  with assms(1) show ?thesis by simp
qed

lemma take_prefix_trans:
  assumes "take (length h) h1 = h" and "take (length h1) h2 = h1"
  shows "take (length h) h2 = h"
  using take_prefix_take [OF assms(2) take_prefix_length [OF assms(1)]] assms(1) by simp

lemma length_dict_store [simp]: "length (dict_store h r key v) = length h"
  by (simp add: dict_store_def split: obj.splits)

lemma dict_store_nth_other: "a \<noteq> r \<Longrightarrow> dict_store h r key v ! a = h ! a"
  by (simp add: dict_store_def split: obj.splits)

lemma take_dict_store: "b \<le> r \<Longrightarrow> take b (dict_store h r key v) = take b h"
  by (simp add: dict_store_def split: obj.splits)

lemma redact_h_prefix:
  "redact_recursive_h n h v = (r, h') \<Longrightarrow> take (length h) h' = h"
  "b \<le> result \<Longrightarrow> result < length h \<Longrightarrow> redact_items_h n h result kvs = (e, h') \<Longrightarrow>
     take b h' = take b h \<and> length h \<le> length h'"
  "redact_elems_h n h xs = (rs, h') \<Longrightarrow> take (length h) h' = h"
proof (induction n h v and n h result kvs and n h xs arbitrary: r h' and b e h' and rs h'
    rule: redact_recursive_h_redact_items_h_redact_elems_h.induct)
  case (1 h obj)
  then show ?case by auto
next
  case (2 n h a)
  show ?case
  proof (cases "a < length h")
    case False
    with "2.prems" show ?thesis by auto
  next
    case True
    show ?thesis
    proof (cases "h ! a")
      case (ODict kvs)
      obtain e h1 where ri: "redact_items_h n (h @ [ODict []]) (length h) kvs = (e, h1)"
        by (cases "redact_items_h n (h @ [ODict []]) (length h) kvs")
      from "2.IH"(1) [OF True ODict refl _ _ ri, of "length h"]
      have "take (length h) h1 = take (length h) (h @ [ODict []])"
        by simp
      moreover from "2.prems" True ODict ri have "h' = h1"
        by (auto split: option.splits)
      ultimately show ?thesis by simp
    next
      case (OList xs)
      obtain rs h1 where re: "redact_elems_h n h xs = (rs, h1)"
        by (cases "redact_elems_h n h xs")
      from "2.IH"(2) [OF True OList re] have q: "take (length h) h1 = h" .
      from take_prefix_length [OF q] have len: "length h \<le> length h1" .
      from "2.prems" True OList re have "h' = h1 \<or> (\<exists>ys. h' = h1 @ [OList ys])"
        by (auto split: sum.splits)
      with q len show ?thesis by auto
    next
      case (OTuple xs)
      with "2.prems" True show ?thesis by auto
    qed
  qed
next
  case (3 n h)
  then show ?case by auto
next
  case (4 n h b)
  then show ?case by auto
next
  case (5 n h i)
  then show ?case by auto
next
  case (6 n h s)
  then show ?case by auto
next
  case (7 n h result)
  then show ?case by auto
next
  case (8 n h result key v kvs)
  show ?case
  proof (cases "key_sensitive key")
    case True
    let ?h1 = "dict_store h result key (VStr REDACTED_VALUE)"
    from "8.prems" True have ri: "redact_items_h n ?h1 result kvs = (e, h')"
      by simp
    from "8.IH"(1) [OF True "8.prems"(1) _ ri] "8.prems"(2)
    have "take b h' = take b ?h1" "length ?h1 \<le> length h'"
      by simp_all
    with "8.prems"(1) show ?thesis
      by (simp add: take_dict_store)
  next
    case False
    obtain r1 h1 where rr: "redact_recursive_h n h v = (r1, h1)"
      by (cases "redact_recursive_h n h v")
    from "8.IH"(2) [OF False rr] have p: "take (length h) h1 = h" .
    from take_prefix_length [OF p] have len: "length h \<le> length h1" .
    from "8.prems"(1,2) have bh: "b \<le> length h" by simp
    from p bh have t1: "take b h1 = take b h"
      by (rule take_prefix_take)
    show ?thesis
    proof (cases r1)
      case (Inl err)
      with "8.prems"(3) False rr have "h' = h1" by simp
      with t1 len show ?thesis by simp
    next
      case (Inr v')
      let ?h2 = "dict_store h1 result key v'"
      from "8.prems"(3) False rr Inr have ri: "redact_items_h n ?h2 result kvs = (e, h')"
        by simp
      from "8.prems"(2) len have r2: "result < length ?h2" by simp
      from "8.IH"(3) [OF False rr [symmetric] Inr "8.prems"(1) r2 ri]
      have "take b h' = take b ?h2" "length ?h2 \<le> length h'"
        by simp_all
      with "8.prems"(1) t1 len show ?thesis
        by (simp add: take_dict_store)
    qed
  qed
next
  case (9 n h)
  then show ?case by auto
next
  case (10 n h x xs)
  obtain r1 h1 where rr: "redact_recursive_h n h x = (r1, h1)"
    by (cases "redact_recursive_h n h x")
  from "10.IH"(1) [OF rr] have p: "take (length h) h1 = h" .
  show ?case
  proof (cases r1)
    case (Inl err)
    with "10.prems" rr have "h' = h1" by simp
    with p show ?thesis by simp
  next
    case (Inr y)
    obtain r2 h2 where re: "redact_elems_h n h1 xs = (r2, h2)"
      by (cases "redact_elems_h n h1 xs")
    from "10.IH"(2) [OF rr [symmetric] Inr re] have q: "take (length h1) h2 = h1" .
    from "10.prems" rr Inr re have "h' = h2"
      by (auto split: sum.splits)
    with take_prefix_trans [OF p q] show ?thesis by simp
  qed
qed

lemma deep_copy_h_prefix:
  "deep_copy_h n h v = (r, h') \<Longrightarrow> take (length h) h' = h"
  "deep_copy_items_h n h kvs = (ri, h') \<Longrightarrow> take (length h) h' = h"
  "deep_copy_elems_h n h xs = (rs, h') \<Longrightarrow> take (length h) h' = h"
proof (induction n h v and n h kvs and n h xs arbitrary: r h' and ri h' and rs h'
    rule: deep_copy_h_deep_copy_items_h_deep_copy_elems_h.induct)
  case (1 h obj)
  then show ?case by auto
next
  case (2 n h a)
  show ?case
  proof (cases "a < length h")
    case False
    with "2.prems" show ?thesis by auto
  next
    case True
    show ?thesis
    proof (cases "h ! a")
      case (ODict kvs)
      obtain ri h1 where dc: "deep_copy_items_h n h kvs = (ri, h1)"
        by (cases "deep_copy_items_h n h kvs")
      from "2.IH"(1) [OF True ODict dc] have q: "take (length h) h1 = h" .
      from take_prefix_length [OF q] have len: "length h \<le> length h1" .
      from "2.prems" True ODict dc have "h' = h1 \<or> (\<exists>items. h' = h1 @ [ODict items])"
        by (auto split: sum.splits)
      with q len show ?thesis by auto
    next
      case (OList xs)
      obtain rs h1 where dc: "deep_copy_elems_h n h xs = (rs, h1)"
        by (cases "deep_copy_elems_h n h xs")
      from "2.IH"(2) [OF True OList dc] have q: "take (length h) h1 = h" .
      from take_prefix_length [OF q] have len: "length h \<le> length h1" .
      from "2.prems" True OList dc have "h' = h1 \<or> (\<exists>ys. h' = h1 @ [OList ys])"
        by (auto split: sum.splits)
      with q len show ?thesis by auto
    next
      case (OTuple xs)
      with "2.prems" True show ?thesis by auto
    qed
  qed
next
  case (3 n h)
  then show ?case by auto
next
  case (4 n h b)
  then show ?case by auto
next
  case (5 n h i)
  then show ?case by auto
next
  case (6 n h s)
  then show ?case by auto
next
  case (7 n h)
  then show ?case by auto
next
  case (8 n h key v kvs)
  obtain r1 h1 where dc: "deep_copy_h n h v = (r1, h1)"
    by (cases "deep_copy_h n h v")
  from "8.IH"(1) [OF dc] have p: "take (length h) h1 = h" .
  show ?case
  proof (cases r1)
    case (Inl err)
    with "8.prems" dc have "h' = h1" by simp
    with p show ?thesis by simp
  next
    case (Inr v')
    obtain r2 h2 where di: "deep_copy_items_h n h1 kvs = (r2, h2)"
      by (cases "deep_copy_items_h n h1 kvs")
    from "8.IH"(2) [OF dc [symmetric] Inr di] have q: "take (length h1) h2 = h1" .
    from "8.prems" dc Inr di have "h' = h2"
      by (auto split: sum.splits)
    with take_prefix_trans [OF p q] show ?thesis by simp
  qed
next
  case (9 n h)
  then show ?case by auto
next
  case (10 n h x xs)
  obtain r1 h1 where dc: "deep_copy_h n h x = (r1, h1)"
    by (cases "deep_copy_h n h x")
  from "10.IH"(1) [OF dc] have p: "take (length h) h1 = h" .
  show ?case
  proof (cases r1)
    case (Inl err)
    with "10.prems" dc have "h' = h1" by simp
    with p show ?thesis by simp
  next
    case (Inr y)
    obtain r2 h2 where de: "deep_copy_elems_h n h1 xs = (r2, h2)"
      by (cases "deep_copy_elems_h n h1 xs")
    from "10.IH"(2) [OF dc [symmetric] Inr de] have q: "take (length h1) h2 = h1" .
    from "10.prems" dc Inr de have "h' = h2"
      by (auto split: sum.splits)
    with take_prefix_trans [OF p q] show ?thesis by simp
  qed
qed

lemma valid_heap_nth:
  "valid_heap h \<Longrightarrow> a < length h \<Longrightarrow> v \<in> set (obj_vals (h ! a)) \<Longrightarrow> valid_val h v"
  by (auto simp: valid_heap_def list_all_iff)

lemma reachable_old:
  assumes "reachable h' v c" and "take (length h) h' = h" and "valid_heap h" and "valid_val h v"
  shows "c < length h"
  using assms
proof (induction rule: reachable.induct)
  case (reach_self a)
  then show ?case by simp
next
  case (reach_step a v c)
  from reach_step.prems(3) have a: "a < length h" by simp
  with reach_step.prems(1) have "h' ! a = h ! a" by (rule take_prefix_nth)
  with reach_step.hyps(2) have "v \<in> set (obj_vals (h ! a))" by simp
  with reach_step.prems(2) a have "valid_val h v" by (rule valid_heap_nth)
  with reach_step.IH reach_step.prems(1,2) show ?case by simp
qed

lemma read_prefix:
  "read d h v = Some P \<Longrightarrow> take (length h) h' = h \<Longrightarrow> read d h' v = Some P"
  "read_items d h kvs = Some ps \<Longrightarrow> take (length h) h' = h \<Longrightarrow> read_items d h' kvs = Some ps"
  "read_elems d h xs = Some qs \<Longrightarrow> take (length h) h' = h \<Longrightarrow> read_elems d h' xs = Some qs"
proof (induction d h v and d h kvs and d h xs arbitrary: P and ps and qs
    rule: read_read_items_read_elems.induct)
  case (6 d h a)
  from "6.prems"(1) have a: "a < length h"
    by (simp split: if_splits)
  with "6.prems"(2) have nth: "h' ! a = h ! a" by (rule take_prefix_nth)
  from take_prefix_length [OF "6.prems"(2)] a have a': "a < length h'" by simp
  show ?case
  proof (cases "h ! a")
    case (ODict kvs)
    with "6.prems"(1) a obtain ps where ps: "read_items d h kvs = Some ps" "P = PDict ps"
      by auto
    from "6.IH"(1) [OF a ODict ps(1) "6.prems"(2)] ps(2) nth ODict a' show ?thesis
      by simp
  next
    case (OList xs)
    with "6.prems"(1) a obtain qs where qs: "read_elems d h xs = Some qs" "P = PList qs"
      by auto
    from "6.IH"(2) [OF a OList qs(1) "6.prems"(2)] qs(2) nth OList a' show ?thesis
      by simp
  next
    case (OTuple xs)
    with "6.prems"(1) a obtain qs where qs: "read_elems d h xs = Some qs" "P = PTuple qs"
      by auto
    from "6.IH"(3) [OF a OTuple qs(1) "6.prems"(2)] qs(2) nth OTuple a' show ?thesis
      by simp
  qed
next
  case (8 d h key v kvs)
  from "8.prems"(1) obtain p ps' where p: "read d h v = Some p"
    "read_items d h kvs = Some ps'" "ps = (key, p) # ps'"
    by (auto split: option.splits)
  from "8.IH"(1) [OF p(1) "8.prems"(2)] "8.IH"(2) [OF p(1) p(2) "8.prems"(2)] p(3)
  show ?case by simp
next
  case (10 d h x xs)
  from "10.prems"(1) obtain p qs' where p: "read d h x = Some p"
    "read_elems d h xs = Some qs'" "qs = p # qs'"
    by (auto split: option.splits)
  from "10.IH"(1) [OF p(1) "10.prems"(2)] "10.IH"(2) [OF p(1) p(2) "10.prems"(2)] p(3)
  show ?case by simp
qed simp_all

text \<open>
  \<open>redact_payload\<close> does not mutate: for both values of \<open>skip_redaction\<close> and whether the
  call returns or raises, the objects that existed before the call are unchanged, the
  payload denotes the tree that it denoted before, and in a store without dangling
  references every object that can be reached from the payload after the call existed
  before the call.
\<close>

lemma redact_payload_h_frame:
  assumes "redact_payload_h n h payload skip_redaction = (r, h')"
  shows "take (length h) h' = h"
    and "read d h payload = Some P \<Longrightarrow> read d h' payload = Some P"
    and "valid_heap h \<Longrightarrow> valid_val h payload \<Longrightarrow> reachable h' payload c \<Longrightarrow> c < length h"
proof -
  from assms show t: "take (length h) h' = h"
    unfolding redact_payload_h_def
    using redact_h_prefix(1) [of n h payload r h'] deep_copy_h_prefix(1) [of n h payload r h']
    by (cases skip_redaction) simp_all
  show "read d h' payload = Some P" if "read d h payload = Some P"
    using that t by (rule read_prefix(1))
  show "c < length h" if "valid_heap h" "valid_val h payload" "reachable h' payload c"
    using that(3) t that(1,2) by (rule reachable_old)
qed

text \<open>
  On a payload without tuples the result is new throughout: the objects that the call
  creates refer to objects that the call creates, and so does the result.
\<close>

lemma fresh_val_mono: "b \<le> c \<Longrightarrow> fresh_val c v \<Longrightarrow> fresh_val b v"
  by (cases v) simp_all

lemma fresh_obj_mono: "b \<le> c \<Longrightarrow> fresh_obj c ob \<Longrightarrow> fresh_obj b ob"
  by (auto simp: fresh_obj_def list_all_iff intro: fresh_val_mono)

lemma fresh_from_iff:
  "fresh_from b h \<longleftrightarrow> (\<forall>a. b \<le> a \<and> a < length h \<longrightarrow> fresh_obj b (h ! a))"
proof
  assume f: "fresh_from b h"
  show "\<forall>a. b \<le> a \<and> a < length h \<longrightarrow> fresh_obj b (h ! a)"
  proof (intro allI impI)
    fix a assume a: "b \<le> a \<and> a < length h"
    then have "h ! a = drop b h ! (a - b)" "a - b < length (drop b h)"
      by auto
    with f show "fresh_obj b (h ! a)"
      by (simp add: fresh_from_def list_all_length)
  qed
next
  assume r: "\<forall>a. b \<le> a \<and> a < length h \<longrightarrow> fresh_obj b (h ! a)"
  show "fresh_from b h"
    unfolding fresh_from_def list_all_length
  proof (intro allI impI)
    fix i assume "i < length (drop b h)"
    then have "b \<le> b + i \<and> b + i < length h" by auto
    with r have "fresh_obj b (h ! (b + i))" by blast
    then show "fresh_obj b (drop b h ! i)"
      using \<open>i < length (drop b h)\<close> by simp
  qed
qed

lemma fresh_from_length [simp]: "fresh_from (length h) h"
  by (simp add: fresh_from_def)

lemma fresh_from_extend:
  assumes "b \<le> length h" and "fresh_from b h" and "take (length h) h' = h"
    and "fresh_from (length h) h'"
  shows "fresh_from b h'"
  unfolding fresh_from_iff
proof (intro allI impI)
  fix a assume a: "b \<le> a \<and> a < length h'"
  show "fresh_obj b (h' ! a)"
  proof (cases "a < length h")
    case True
    with assms(2) a have "fresh_obj b (h ! a)" by (simp add: fresh_from_iff)
    with take_prefix_nth [OF assms(3) True] show ?thesis by simp
  next
    case False
    with assms(4) a have "fresh_obj (length h) (h' ! a)" by (simp add: fresh_from_iff)
    with assms(1) show ?thesis by (rule fresh_obj_mono)
  qed
qed

lemma dict_set_vals: "set (map snd (dict_set k v items)) \<subseteq> insert v (set (map snd items))"
proof (induction items)
  case Nil
  then show ?case by simp
next
  case (Cons kv items)
  obtain k' v' where "kv = (k', v')" by (cases kv)
  with Cons show ?case by (cases "k' = k") auto
qed

lemma fresh_obj_dict_store:
  assumes "r < length h" and "fresh_obj b (h ! r)" and "fresh_val b v"
  shows "fresh_obj b (dict_store h r key v ! r)"
proof (cases "h ! r")
  case (ODict items)
  with assms(1) have "dict_store h r key v ! r = ODict (dict_set key v items)"
    by (simp add: dict_store_def)
  moreover from assms(2) ODict have "\<forall>x \<in> set (map snd items). fresh_val b x"
    by (simp add: fresh_obj_def list_all_iff)
  with assms(3) dict_set_vals [of key v items]
  have "\<forall>x \<in> set (map snd (dict_set key v items)). fresh_val b x"
    by blast
  ultimately show ?thesis by (simp add: fresh_obj_def list_all_iff)
next
  case (OList xs)
  with assms(2) show ?thesis by (simp add: dict_store_def)
next
  case (OTuple xs)
  with assms(2) show ?thesis by (simp add: dict_store_def)
qed

lemma fresh_from_dict_store:
  assumes "b \<le> r" and "r < length h" and "fresh_from b h" and "fresh_val b v"
  shows "fresh_from b (dict_store h r key v)"
  unfolding fresh_from_iff
proof (intro allI impI)
  fix a assume a: "b \<le> a \<and> a < length (dict_store h r key v)"
  show "fresh_obj b (dict_store h r key v ! a)"
  proof (cases "a = r")
    case True
    from assms(1,2,3) have "fresh_obj b (h ! r)" by (simp add: fresh_from_iff)
    from fresh_obj_dict_store [OF assms(2) this assms(4)] True show ?thesis by simp
  next
    case False
    with assms(3) a show ?thesis by (simp add: dict_store_nth_other fresh_from_iff)
  qed
qed

lemma fresh_from_append:
  "fresh_from b h \<Longrightarrow> b \<le> length h \<Longrightarrow> fresh_obj b ob \<Longrightarrow> fresh_from b (h @ [ob])"
  by (simp add: fresh_from_def)

lemma reachable_fresh:
  assumes "reachable h v c" and "fresh_from b h" and "fresh_val b v"
  shows "b \<le> c"
  using assms
proof (induction rule: reachable.induct)
  case (reach_self a)
  then show ?case by simp
next
  case (reach_step a v c)
  from reach_step.prems have "b \<le> a" by simp
  with reach_step.hyps(1) reach_step.prems(1) have "fresh_obj b (h ! a)"
    by (simp add: fresh_from_iff)
  with reach_step.hyps(2) have "fresh_val b v"
    by (simp add: fresh_obj_def list_all_iff)
  with reach_step.IH reach_step.prems(1) show ?case by simp
qed


lemma read_ref_cases:
  assumes "read d h (VRef a) = Some P"
  obtains d' where "d = Suc d'" "a < length h"
proof (cases d)
  case 0
  with assms show ?thesis by simp
next
  case (Suc d')
  with assms have "a < length h" by (simp split: if_splits)
  with Suc that show ?thesis by blast
qed

lemma redact_h_fresh:
  "redact_recursive_h n h v = (r, h') \<Longrightarrow> read d h0 v = Some P \<Longrightarrow> tuple_free P \<Longrightarrow>
   take (length h0) h = h0 \<Longrightarrow>
     fresh_from (length h) h' \<and> (\<forall>v'. r = Inr v' \<longrightarrow> fresh_val (length h) v')"
  "b \<le> result \<Longrightarrow> result < length h \<Longrightarrow> fresh_from b h \<Longrightarrow>
   redact_items_h n h result kvs = (e, h') \<Longrightarrow> read_items d h0 kvs = Some ps \<Longrightarrow>
   list_all (\<lambda>(k, p). tuple_free p) ps \<Longrightarrow> take (length h0) h = h0 \<Longrightarrow> length h0 \<le> result \<Longrightarrow>
     fresh_from b h'"
  "redact_elems_h n h xs = (rs, h') \<Longrightarrow> read_elems d h0 xs = Some qs \<Longrightarrow>
   list_all tuple_free qs \<Longrightarrow> take (length h0) h = h0 \<Longrightarrow>
     fresh_from (length h) h' \<and> (\<forall>ys. rs = Inr ys \<longrightarrow> list_all (fresh_val (length h)) ys)"
proof (induction n h v and n h result kvs and n h xs
    arbitrary: r h' d h0 P and b e h' d h0 ps and rs h' d h0 qs
    rule: redact_recursive_h_redact_items_h_redact_elems_h.induct)
  case (1 h obj)
  then show ?case by auto
next
  case (2 n h a)
  from "2.prems"(2) obtain d' where d: "d = Suc d'" and a0: "a < length h0"
    by (rule read_ref_cases)
  from take_prefix_length [OF "2.prems"(4)] have len0: "length h0 \<le> length h" .
  with a0 have True: "a < length h" by simp
  from take_prefix_nth [OF "2.prems"(4) a0] have nth: "h ! a = h0 ! a" .
  show ?case
  proof (cases "h ! a")
    case (ODict kvs)
    with nth have "h0 ! a = ODict kvs" by simp
    with "2.prems"(2,3) d a0 obtain ps where ps: "read_items d' h0 kvs = Some ps"
      "list_all (\<lambda>(k, p). tuple_free p) ps"
      by auto
    obtain e h1 where ri: "redact_items_h n (h @ [ODict []]) (length h) kvs = (e, h1)"
      by (cases "redact_items_h n (h @ [ODict []]) (length h) kvs")
    have f0: "fresh_from (length h) (h @ [ODict []])"
      by (simp add: fresh_from_def fresh_obj_def)
    have t0: "take (length h0) (h @ [ODict []]) = h0"
      using "2.prems"(4) len0 by simp
    have "length h \<le> length h" "length h < length (h @ [ODict []])"
      by simp_all
    from "2.IH"(1) [OF True ODict refl this f0 ri ps t0 len0]
    have q: "fresh_from (length h) h1" .
    from "2.prems"(1) True ODict ri have "h' = h1" "\<forall>v'. r = Inr v' \<longrightarrow> v' = VRef (length h)"
      by (auto split: option.splits)
    with q show ?thesis by auto
  next
    case (OList xs)
    with nth have "h0 ! a = OList xs" by simp
    with "2.prems"(2,3) d a0 obtain qs where qs: "read_elems d' h0 xs = Some qs"
      "list_all tuple_free qs"
      by auto
    obtain rs h1 where re: "redact_elems_h n h xs = (rs, h1)"
      by (cases "redact_elems_h n h xs")
    from "2.IH"(2) [OF True OList re qs "2.prems"(4)]
    have q: "fresh_from (length h) h1"
      "\<forall>ys. rs = Inr ys \<longrightarrow> list_all (fresh_val (length h)) ys"
      by simp_all
    from redact_h_prefix(3) [OF re] have pre: "take (length h) h1 = h" .
    from take_prefix_length [OF pre] have len: "length h \<le> length h1" .
    show ?thesis
    proof (cases rs)
      case (Inl err)
      with "2.prems"(1) True OList re have "h' = h1" "r = Inl err" by simp_all
      with q show ?thesis by simp
    next
      case (Inr ys)
      with "2.prems"(1) True OList re have eq: "h' = h1 @ [OList ys]" "r = Inr (VRef (length h1))"
        by simp_all
      from q(2) Inr have "fresh_obj (length h) (OList ys)"
        by (simp add: fresh_obj_def)
      with q(1) len have "fresh_from (length h) (h1 @ [OList ys])"
        by (simp add: fresh_from_append)
      then show ?thesis using eq len by simp
    qed
  next
    case (OTuple xs)
    with nth have "h0 ! a = OTuple xs" by simp
    with "2.prems"(2,3) d a0 show ?thesis
      by auto
  qed
next
  case (3 n h)
  then show ?case by auto
next
  case (4 n h b)
  then show ?case by auto
next
  case (5 n h i)
  then show ?case by auto
next
  case (6 n h s)
  then show ?case by auto
next
  case (7 n h result)
  then show ?case by auto
next
  case (8 n h result key v kvs)
  from "8.prems"(5) obtain p ps' where p: "read d h0 v = Some p"
    "read_items d h0 kvs = Some ps'" "ps = (key, p) # ps'"
    by (auto split: option.splits)
  from "8.prems"(6) p(3) have tf: "tuple_free p" "list_all (\<lambda>(k, p). tuple_free p) ps'"
    by simp_all
  show ?case
  proof (cases "key_sensitive key")
    case True
    let ?h1 = "dict_store h result key (VStr REDACTED_VALUE)"
    from "8.prems"(4) True have ri: "redact_items_h n ?h1 result kvs = (e, h')"
      by simp
    have f1: "fresh_from b ?h1"
      using "8.prems"(1,2,3) by (simp add: fresh_from_dict_store)
    from "8.prems"(2) have r1: "result < length ?h1" by simp
    from "8.prems"(7,8) have t1: "take (length h0) ?h1 = h0"
      by (simp add: take_dict_store)
    from "8.IH"(1) [OF True "8.prems"(1) r1 f1 ri p(2) tf(2) t1 "8.prems"(8)]
    show ?thesis .
  next
    case False
    obtain r1 h1 where rr: "redact_recursive_h n h v = (r1, h1)"
      by (cases "redact_recursive_h n h v")
    from "8.IH"(2) [OF False rr p(1) tf(1) "8.prems"(7)]
    have q: "fresh_from (length h) h1" "\<forall>v'. r1 = Inr v' \<longrightarrow> fresh_val (length h) v'"
      by simp_all
    from redact_h_prefix(1) [OF rr] have pre: "take (length h) h1 = h" .
    from take_prefix_length [OF pre] have len: "length h \<le> length h1" .
    from take_prefix_length [OF "8.prems"(7)] have len0: "length h0 \<le> length h" .
    from "8.prems"(1,2) have bh: "b \<le> length h" by simp
    from fresh_from_extend [OF bh "8.prems"(3) pre q(1)] have f1: "fresh_from b h1" .
    show ?thesis
    proof (cases r1)
      case (Inl err)
      with "8.prems"(4) False rr have "h' = h1" by simp
      with f1 show ?thesis by simp
    next
      case (Inr v')
      let ?h2 = "dict_store h1 result key v'"
      from "8.prems"(4) False rr Inr have ri: "redact_items_h n ?h2 result kvs = (e, h')"
        by simp
      from q(2) Inr bh have "fresh_val b v'"
        using fresh_val_mono by blast
      with "8.prems"(1,2) len f1 have f2: "fresh_from b ?h2"
        by (simp add: fresh_from_dict_store)
      from "8.prems"(2) len have r2: "result < length ?h2" by simp
      from take_prefix_take [OF pre len0] "8.prems"(7) have "take (length h0) h1 = h0"
        by simp
      with "8.prems"(8) have t2: "take (length h0) ?h2 = h0"
        by (simp add: take_dict_store)
      from "8.IH"(3) [OF False rr [symmetric] Inr "8.prems"(1) r2 f2 ri p(2) tf(2) t2 "8.prems"(8)]
      show ?thesis .
    qed
  qed
next
  case (9 n h)
  then show ?case by auto
next
  case (10 n h x xs)
  from "10.prems"(2) obtain p qs' where p: "read d h0 x = Some p"
    "read_elems d h0 xs = Some qs'" "qs = p # qs'"
    by (auto split: option.splits)
  from "10.prems"(3) p(3) have tf: "tuple_free p" "list_all tuple_free qs'"
    by simp_all
  from take_prefix_length [OF "10.prems"(4)] have len0: "length h0 \<le> length h" .
  obtain r1 h1 where rr: "redact_recursive_h n h x = (r1, h1)"
    by (cases "redact_recursive_h n h x")
  from "10.IH"(1) [OF rr p(1) tf(1) "10.prems"(4)]
  have q1: "fresh_from (length h) h1" "\<forall>v'. r1 = Inr v' \<longrightarrow> fresh_val (length h) v'"
    by simp_all
  from redact_h_prefix(1) [OF rr] have pre: "take (length h) h1 = h" .
  from take_prefix_length [OF pre] have len: "length h \<le> length h1" .
  show ?case
  proof (cases r1)
    case (Inl err)
    with "10.prems"(1) rr have "h' = h1" "rs = Inl err" by simp_all
    with q1 show ?thesis by simp
  next
    case (Inr y)
    obtain r2 h2 where re: "redact_elems_h n h1 xs = (r2, h2)"
      by (cases "redact_elems_h n h1 xs")
    from take_prefix_take [OF pre len0] "10.prems"(4) have t1: "take (length h0) h1 = h0"
      by simp
    from "10.IH"(2) [OF rr [symmetric] Inr re p(2) tf(2) t1]
    have q2: "fresh_from (length h1) h2"
      "\<forall>ys. r2 = Inr ys \<longrightarrow> list_all (fresh_val (length h1)) ys"
      by simp_all
    from redact_h_prefix(3) [OF re] have pre2: "take (length h1) h2 = h1" .
    from "10.prems"(1) rr Inr re have eq: "h' = h2"
      "\<forall>zs. rs = Inr zs \<longrightarrow> (\<exists>ys. r2 = Inr ys \<and> zs = y # ys)"
      by (auto split: sum.splits)
    from fresh_from_extend [OF len q1(1) pre2 q2(1)] have f: "fresh_from (length h) h2" .
    have "list_all (fresh_val (length h)) zs" if "rs = Inr zs" for zs
    proof -
      from eq(2) that obtain ys where ys: "r2 = Inr ys" "zs = y # ys" by blast
      with q2(2) have "list_all (fresh_val (length h1)) ys" by simp
      then have "list_all (fresh_val (length h)) ys"
        using len by (auto simp: list_all_iff intro: fresh_val_mono)
      with q1(2) Inr ys show ?thesis by simp
    qed
    with f eq(1) show ?thesis by simp
  qed
qed

lemma deep_copy_h_fresh:
  "deep_copy_h n h v = (r, h') \<Longrightarrow> read d h0 v = Some P \<Longrightarrow> tuple_free P \<Longrightarrow>
   take (length h0) h = h0 \<Longrightarrow>
     fresh_from (length h) h' \<and> (\<forall>v'. r = Inr v' \<longrightarrow> fresh_val (length h) v')"
  "deep_copy_items_h n h kvs = (ri, h') \<Longrightarrow> read_items d h0 kvs = Some ps \<Longrightarrow>
   list_all (\<lambda>(k, p). tuple_free p) ps \<Longrightarrow> take (length h0) h = h0 \<Longrightarrow>
     fresh_from (length h) h' \<and>
     (\<forall>items. ri = Inr items \<longrightarrow> list_all (fresh_val (length h)) (map snd items))"
  "deep_copy_elems_h n h xs = (rs, h') \<Longrightarrow> read_elems d h0 xs = Some qs \<Longrightarrow>
   list_all tuple_free qs \<Longrightarrow> take (length h0) h = h0 \<Longrightarrow>
     fresh_from (length h) h' \<and> (\<forall>ys. rs = Inr ys \<longrightarrow> list_all (fresh_val (length h)) ys)"
proof (induction n h v and n h kvs and n h xs
    arbitrary: r h' d h0 P and ri h' d h0 ps and rs h' d h0 qs
    rule: deep_copy_h_deep_copy_items_h_deep_copy_elems_h.induct)
  case (1 h obj)
  then show ?case by auto
next
  case (2 n h a)
  from "2.prems"(2) obtain d' where d: "d = Suc d'" and a0: "a < length h0"
    by (rule read_ref_cases)
  from take_prefix_length [OF "2.prems"(4)] have len0: "length h0 \<le> length h" .
  with a0 have True: "a < length h" by simp
  from take_prefix_nth [OF "2.prems"(4) a0] have nth: "h ! a = h0 ! a" .
  show ?case
  proof (cases "h ! a")
    case (ODict kvs)
    with nth have "h0 ! a = ODict kvs" by simp
    with "2.prems"(2,3) d a0 obtain ps where ps: "read_items d' h0 kvs = Some ps"
      "list_all (\<lambda>(k, p). tuple_free p) ps"
      by auto
    obtain ri h1 where dc: "deep_copy_items_h n h kvs = (ri, h1)"
      by (cases "deep_copy_items_h n h kvs")
    from "2.IH"(1) [OF True ODict dc ps "2.prems"(4)]
    have q: "fresh_from (length h) h1"
      "\<forall>items. ri = Inr items \<longrightarrow> list_all (fresh_val (length h)) (map snd items)"
      by simp_all
    from deep_copy_h_prefix(2) [OF dc] have pre: "take (length h) h1 = h" .
    from take_prefix_length [OF pre] have len: "length h \<le> length h1" .
    show ?thesis
    proof (cases ri)
      case (Inl err)
      with "2.prems"(1) True ODict dc have "h' = h1" "r = Inl err" by simp_all
      with q show ?thesis by simp
    next
      case (Inr items)
      with "2.prems"(1) True ODict dc
      have eq: "h' = h1 @ [ODict items]" "r = Inr (VRef (length h1))"
        by simp_all
      from q(2) Inr have "fresh_obj (length h) (ODict items)"
        by (simp add: fresh_obj_def)
      with q(1) len have "fresh_from (length h) (h1 @ [ODict items])"
        by (simp add: fresh_from_append)
      then show ?thesis using eq len by simp
    qed
  next
    case (OList xs)
    with nth have "h0 ! a = OList xs" by simp
    with "2.prems"(2,3) d a0 obtain qs where qs: "read_elems d' h0 xs = Some qs"
      "list_all tuple_free qs"
      by auto
    obtain rs h1 where dc: "deep_copy_elems_h n h xs = (rs, h1)"
      by (cases "deep_copy_elems_h n h xs")
    from "2.IH"(2) [OF True OList dc qs "2.prems"(4)]
    have q: "fresh_from (length h) h1"
      "\<forall>ys. rs = Inr ys \<longrightarrow> list_all (fresh_val (length h)) ys"
      by simp_all
    from deep_copy_h_prefix(3) [OF dc] have pre: "take (length h) h1 = h" .
    from take_prefix_length [OF pre] have len: "length h \<le> length h1" .
    show ?thesis
    proof (cases rs)
      case (Inl err)
      with "2.prems"(1) True OList dc have "h' = h1" "r = Inl err" by simp_all
      with q show ?thesis by simp
    next
      case (Inr ys)
      with "2.prems"(1) True OList dc have eq: "h' = h1 @ [OList ys]" "r = Inr (VRef (length h1))"
        by simp_all
      from q(2) Inr have "fresh_obj (length h) (OList ys)"
        by (simp add: fresh_obj_def)
      with q(1) len have "fresh_from (length h) (h1 @ [OList ys])"
        by (simp add: fresh_from_append)
      then show ?thesis using eq len by simp
    qed
  next
    case (OTuple xs)
    with nth have "h0 ! a = OTuple xs" by simp
    with "2.prems"(2,3) d a0 show ?thesis
      by auto
  qed
next
  case (3 n h)
  then show ?case by auto
next
  case (4 n h b)
  then show ?case by auto
next
  case (5 n h i)
  then show ?case by auto
next
  case (6 n h s)
  then show ?case by auto
next
  case (7 n h)
  then show ?case by auto
next
  case (8 n h key v kvs)
  from "8.prems"(2) obtain p ps' where p: "read d h0 v = Some p"
    "read_items d h0 kvs = Some ps'" "ps = (key, p) # ps'"
    by (auto split: option.splits)
  from "8.prems"(3) p(3) have tf: "tuple_free p" "list_all (\<lambda>(k, p). tuple_free p) ps'"
    by simp_all
  from take_prefix_length [OF "8.prems"(4)] have len0: "length h0 \<le> length h" .
  obtain r1 h1 where dc: "deep_copy_h n h v = (r1, h1)"
    by (cases "deep_copy_h n h v")
  from "8.IH"(1) [OF dc p(1) tf(1) "8.prems"(4)]
  have q1: "fresh_from (length h) h1" "\<forall>v'. r1 = Inr v' \<longrightarrow> fresh_val (length h) v'"
    by simp_all
  from deep_copy_h_prefix(1) [OF dc] have pre: "take (length h) h1 = h" .
  from take_prefix_length [OF pre] have len: "length h \<le> length h1" .
  show ?case
  proof (cases r1)
    case (Inl err)
    with "8.prems"(1) dc have "h' = h1" "ri = Inl err" by simp_all
    with q1 show ?thesis by simp
  next
    case (Inr v')
    obtain r2 h2 where di: "deep_copy_items_h n h1 kvs = (r2, h2)"
      by (cases "deep_copy_items_h n h1 kvs")
    from take_prefix_take [OF pre len0] "8.prems"(4) have t1: "take (length h0) h1 = h0"
      by simp
    from "8.IH"(2) [OF dc [symmetric] Inr di p(2) tf(2) t1]
    have q2: "fresh_from (length h1) h2"
      "\<forall>items. r2 = Inr items \<longrightarrow> list_all (fresh_val (length h1)) (map snd items)"
      by simp_all
    from deep_copy_h_prefix(2) [OF di] have pre2: "take (length h1) h2 = h1" .
    from "8.prems"(1) dc Inr di have eq: "h' = h2"
      "\<forall>zs. ri = Inr zs \<longrightarrow> (\<exists>items. r2 = Inr items \<and> zs = (key, v') # items)"
      by (auto split: sum.splits)
    from fresh_from_extend [OF len q1(1) pre2 q2(1)] have f: "fresh_from (length h) h2" .
    have "list_all (fresh_val (length h)) (map snd zs)" if "ri = Inr zs" for zs
    proof -
      from eq(2) that obtain items where it: "r2 = Inr items" "zs = (key, v') # items" by blast
      with q2(2) have "list_all (fresh_val (length h1)) (map snd items)" by simp
      then have "list_all (fresh_val (length h)) (map snd items)"
        using len by (auto simp: list_all_iff intro: fresh_val_mono)
      with q1(2) Inr it show ?thesis by simp
    qed
    with f eq(1) show ?thesis by simp
  qed
next
  case (9 n h)
  then show ?case by auto
next
  case (10 n h x xs)
  from "10.prems"(2) obtain p qs' where p: "read d h0 x = Some p"
    "read_elems d h0 xs = Some qs'" "qs = p # qs'"
    by (auto split: option.splits)
  from "10.prems"(3) p(3) have tf: "tuple_free p" "list_all tuple_free qs'"
    by simp_all
  from take_prefix_length [OF "10.prems"(4)] have len0: "length h0 \<le> length h" .
  obtain r1 h1 where dc: "deep_copy_h n h x = (r1, h1)"
    by (cases "deep_copy_h n h x")
  from "10.IH"(1) [OF dc p(1) tf(1) "10.prems"(4)]
  have q1: "fresh_from (length h) h1" "\<forall>v'. r1 = Inr v' \<longrightarrow> fresh_val (length h) v'"
    by simp_all
  from deep_copy_h_prefix(1) [OF dc] have pre: "take (length h) h1 = h" .
  from take_prefix_length [OF pre] have len: "length h \<le> length h1" .
  show ?case
  proof (cases r1)
    case (Inl err)
    with "10.prems"(1) dc have "h' = h1" "rs = Inl err" by simp_all
    with q1 show ?thesis by simp
  next
    case (Inr y)
    obtain r2 h2 where de: "deep_copy_elems_h n h1 xs = (r2, h2)"
      by (cases "deep_copy_elems_h n h1 xs")
    from take_prefix_take [OF pre len0] "10.prems"(4) have t1: "take (length h0) h1 = h0"
      by simp
    from "10.IH"(2) [OF dc [symmetric] Inr de p(2) tf(2) t1]
    have q2: "fresh_from (length h1) h2"
      "\<forall>ys. r2 = Inr ys \<longrightarrow> list_all (fresh_val (length h1)) ys"
      by simp_all
    from deep_copy_h_prefix(3) [OF de] have pre2: "take (length h1) h2 = h1" .
    from "10.prems"(1) dc Inr de have eq: "h' = h2"
      "\<forall>zs. rs = Inr zs \<longrightarrow> (\<exists>ys. r2 = Inr ys \<and> zs = y # ys)"
      by (auto split: sum.splits)
    from fresh_from_extend [OF len q1(1) pre2 q2(1)] have f: "fresh_from (length h) h2" .
    have "list_all (fresh_val (length h)) zs" if "rs = Inr zs" for zs
    proof -
      from eq(2) that obtain ys where ys: "r2 = Inr ys" "zs = y # ys" by blast
      with q2(2) have "list_all (fresh_val (length h1)) ys" by simp
      then have "list_all (fresh_val (length h)) ys"
        using len by (auto simp: list_all_iff intro: fresh_val_mono)
      with q1(2) Inr ys show ?thesis by simp
    qed
    with f eq(1) show ?thesis by simp
  qed
qed

text \<open>
  When the payload denotes a tree without tuples, every object that can be reached from
  the result was created by the call: the result shares nothing with the payload.
\<close>

lemma redact_payload_h_fresh:
  assumes "redact_payload_h n h payload skip_redaction = (Inr r, h')"
    and "read d h payload = Some P" and "tuple_free P" and "reachable h' r c"
  shows "length h \<le> c"
proof -
  have "fresh_from (length h) h' \<and> fresh_val (length h) r"
  proof (cases skip_redaction)
    case True
    with assms(1) have "deep_copy_h n h payload = (Inr r, h')"
      by (simp add: redact_payload_h_def)
    from deep_copy_h_fresh(1) [OF this assms(2,3)] show ?thesis by simp
  next
    case False
    with assms(1) have "redact_recursive_h n h payload = (Inr r, h')"
      by (simp add: redact_payload_h_def)
    from redact_h_fresh(1) [OF this assms(2,3)] show ?thesis by simp
  qed
  with assms(4) show ?thesis
    using reachable_fresh by blast
qed

section \<open>The store model and the tree model agree\<close>

text \<open>
  When the payload denotes a tree (with pairwise different keys in every dictionary, as
  in Python), \<open>redact_payload\<close> on the store returns, given one level of depth more than
  the reading of the tree takes, and its result denotes the tree that \<open>redact_payload\<close>
  on trees computes. In the induction the result of a call is read in every store that
  agrees with the store after the call on the objects that existed at first and on the
  objects that the call created: the later writes of the loop to \<open>result\<close> do not touch
  these.
\<close>

lemma dict_set_append: "k \<notin> fst ` set acc \<Longrightarrow> dict_set k v acc = acc @ [(k, v)]"
  by (induction acc) auto

lemma read_items_keys: "read_items d h kvs = Some ps \<Longrightarrow> map fst ps = map fst kvs"
  by (induction kvs arbitrary: ps) (auto split: option.splits)

lemma read_items_append:
  "read_items d g (xs @ ys) =
     (case read_items d g xs of
        None \<Rightarrow> None
      | Some ps \<Rightarrow> map_option ((@) ps) (read_items d g ys))"
proof (induction xs)
  case Nil
  show ?case by (cases "read_items d g ys") simp_all
next
  case (Cons kv xs)
  obtain k v where kv: "kv = (k, v)" by (cases kv)
  show ?case
  proof (cases "read d g v")
    case None
    then show ?thesis by (simp add: kv)
  next
    case (Some p)
    show ?thesis
    proof (cases "read_items d g xs")
      case None
      with Some Cons show ?thesis by (simp add: kv)
    next
      case (Some ps)
      with \<open>read d g v = Some p\<close> Cons show ?thesis
        by (cases "read_items d g ys") (simp_all add: kv)
    qed
  qed
qed

lemma deep_copy_same: "deep_copy P = P"
proof (induction P rule: deep_copy.induct)
  case (1 kvs)
  have "(case kv of (key, v) \<Rightarrow> (key, deep_copy v)) = kv" if "kv \<in> set kvs" for kv
  proof -
    obtain key v where kv: "kv = (key, v)" by (cases kv)
    from "1.IH" [OF that kv [symmetric]] show ?thesis by (simp add: kv)
  qed
  then have "map (\<lambda>(key, v). (key, deep_copy v)) kvs = kvs"
    by (simp add: map_idI)
  then show ?case by simp
next
  case (2 xs)
  then have "map deep_copy xs = xs" by (simp add: map_idI)
  then show ?case by simp
qed simp_all

lemma deep_copy_h_refines:
  "read d h v = Some P \<Longrightarrow> take (length h) g = h \<Longrightarrow>
     \<exists>v' g'. deep_copy_h (Suc d) g v = (Inr v', g') \<and> read d g' v' = Some P"
  "read_items d h kvs = Some ps \<Longrightarrow> take (length h) g = h \<Longrightarrow>
     \<exists>items g'. deep_copy_items_h (Suc d) g kvs = (Inr items, g') \<and>
                read_items d g' items = Some ps"
  "read_elems d h xs = Some qs \<Longrightarrow> take (length h) g = h \<Longrightarrow>
     \<exists>ys g'. deep_copy_elems_h (Suc d) g xs = (Inr ys, g') \<and> read_elems d g' ys = Some qs"
proof (induction d h v and d h kvs and d h xs arbitrary: P g and ps g and qs g
    rule: read_read_items_read_elems.induct)
  case (1 d h)
  then show ?case by auto
next
  case (2 d h b)
  then show ?case by auto
next
  case (3 d h i)
  then show ?case by auto
next
  case (4 d h s)
  then show ?case by auto
next
  case (5 h a)
  then show ?case by simp
next
  case (6 d h a)
  from "6.prems"(1) have a: "a < length h"
    by (simp split: if_splits)
  from take_prefix_nth [OF "6.prems"(2) a] have nth: "g ! a = h ! a" .
  from take_prefix_length [OF "6.prems"(2)] a have ag: "a < length g" by simp
  show ?case
  proof (cases "h ! a")
    case (ODict kvs)
    with "6.prems"(1) a obtain ps where ps: "read_items d h kvs = Some ps" "P = PDict ps"
      by auto
    from "6.IH"(1) [OF a ODict ps(1) "6.prems"(2)]
    obtain items g1 where run: "deep_copy_items_h (Suc d) g kvs = (Inr items, g1)"
      and rd: "read_items d g1 items = Some ps"
      by blast
    have "take (length g1) (g1 @ [ODict items]) = g1" by simp
    from read_prefix(2) [OF rd this]
    have rd': "read_items d (g1 @ [ODict items]) items = Some ps" .
    from run ag nth ODict
    have "deep_copy_h (Suc (Suc d)) g (VRef a) = (Inr (VRef (length g1)), g1 @ [ODict items])"
      by simp
    moreover from rd' ps(2)
    have "read (Suc d) (g1 @ [ODict items]) (VRef (length g1)) = Some P"
      by simp
    ultimately show ?thesis by blast
  next
    case (OList xs)
    with "6.prems"(1) a obtain qs where qs: "read_elems d h xs = Some qs" "P = PList qs"
      by auto
    from "6.IH"(2) [OF a OList qs(1) "6.prems"(2)]
    obtain ys g1 where run: "deep_copy_elems_h (Suc d) g xs = (Inr ys, g1)"
      and rd: "read_elems d g1 ys = Some qs"
      by blast
    have "take (length g1) (g1 @ [OList ys]) = g1" by simp
    from read_prefix(3) [OF rd this]
    have rd': "read_elems d (g1 @ [OList ys]) ys = Some qs" .
    from run ag nth OList
    have "deep_copy_h (Suc (Suc d)) g (VRef a) = (Inr (VRef (length g1)), g1 @ [OList ys])"
      by simp
    moreover from rd' qs(2)
    have "read (Suc d) (g1 @ [OList ys]) (VRef (length g1)) = Some P"
      by simp
    ultimately show ?thesis by blast
  next
    case (OTuple xs)
    with "6.prems"(1) a obtain qs where qs: "read_elems d h xs = Some qs" "P = PTuple qs"
      by auto
    from ag nth OTuple have "deep_copy_h (Suc (Suc d)) g (VRef a) = (Inr (VRef a), g)"
      by simp
    moreover from read_prefix(1) [OF "6.prems"(1) "6.prems"(2)]
    have "read (Suc d) g (VRef a) = Some P" .
    ultimately show ?thesis by blast
  qed
next
  case (7 d h)
  then show ?case by auto
next
  case (8 d h key v kvs)
  from "8.prems"(1) obtain p ps' where p: "read d h v = Some p"
    "read_items d h kvs = Some ps'" "ps = (key, p) # ps'"
    by (auto split: option.splits)
  from take_prefix_length [OF "8.prems"(2)] have len: "length h \<le> length g" .
  from "8.IH"(1) [OF p(1) "8.prems"(2)]
  obtain v' g1 where run1: "deep_copy_h (Suc d) g v = (Inr v', g1)"
    and rd1: "read d g1 v' = Some p"
    by blast
  from deep_copy_h_prefix(1) [OF run1] have fr: "take (length g) g1 = g" .
  from take_prefix_take [OF fr len] "8.prems"(2) have t1: "take (length h) g1 = h"
    by simp
  from "8.IH"(2) [OF p(1) p(2) t1]
  obtain items g2 where run2: "deep_copy_items_h (Suc d) g1 kvs = (Inr items, g2)"
    and rd2: "read_items d g2 items = Some ps'"
    by blast
  from deep_copy_h_prefix(2) [OF run2] have fr2: "take (length g1) g2 = g1" .
  from read_prefix(1) [OF rd1 fr2] have rd1': "read d g2 v' = Some p" .
  from run1 run2
  have "deep_copy_items_h (Suc d) g ((key, v) # kvs) = (Inr ((key, v') # items), g2)"
    by simp
  moreover from rd1' rd2 p(3) have "read_items d g2 ((key, v') # items) = Some ps"
    by simp
  ultimately show ?case by blast
next
  case (9 d h)
  then show ?case by auto
next
  case (10 d h x xs)
  from "10.prems"(1) obtain p qs' where p: "read d h x = Some p"
    "read_elems d h xs = Some qs'" "qs = p # qs'"
    by (auto split: option.splits)
  from take_prefix_length [OF "10.prems"(2)] have len: "length h \<le> length g" .
  from "10.IH"(1) [OF p(1) "10.prems"(2)]
  obtain y g1 where run1: "deep_copy_h (Suc d) g x = (Inr y, g1)"
    and rd1: "read d g1 y = Some p"
    by blast
  from deep_copy_h_prefix(1) [OF run1] have fr: "take (length g) g1 = g" .
  from take_prefix_take [OF fr len] "10.prems"(2) have t1: "take (length h) g1 = h"
    by simp
  from "10.IH"(2) [OF p(1) p(2) t1]
  obtain ys g2 where run2: "deep_copy_elems_h (Suc d) g1 xs = (Inr ys, g2)"
    and rd2: "read_elems d g2 ys = Some qs'"
    by blast
  from deep_copy_h_prefix(3) [OF run2] have fr2: "take (length g1) g2 = g1" .
  from read_prefix(1) [OF rd1 fr2] have rd1': "read d g2 y = Some p" .
  from run1 run2 have "deep_copy_elems_h (Suc d) g (x # xs) = (Inr (y # ys), g2)"
    by simp
  moreover from rd1' rd2 p(3) have "read_elems d g2 (y # ys) = Some qs"
    by simp
  ultimately show ?case by blast
qed


lemma agree_on_prefix:
  assumes "agree_on g g2 lo b" and "take (length h) g = h" and "length h \<le> lo"
  shows "take (length h) g2 = h"
proof (rule nth_equalityI)
  from take_prefix_length [OF assms(2)] have len: "length h \<le> length g" .
  with assms(1) show "length (take (length h) g2) = length h"
    by (simp add: agree_on_def)
  fix i assume "i < length (take (length h) g2)"
  then have i: "i < length h" by simp
  with len assms(1,3) have "g2 ! i = g ! i"
    by (simp add: agree_on_def)
  with i take_prefix_nth [OF assms(2) i] show "take (length h) g2 ! i = h ! i"
    by simp
qed

lemma redact_h_refines:
  "read d h v = Some P \<Longrightarrow> distinct_keys P \<Longrightarrow> take (length h) g = h \<Longrightarrow>
     \<exists>v' g'. redact_recursive_h (Suc d) g v = (Inr v', g') \<and>
       (\<forall>g2. agree_on g' g2 (length h) (length g) \<longrightarrow>
              read d g2 v' = Some (redact_recursive P))"
  "read_items d h kvs = Some ps \<Longrightarrow> distinct (map fst kvs) \<Longrightarrow>
   list_all (\<lambda>(k, p). distinct_keys p) ps \<Longrightarrow> take (length h) g = h \<Longrightarrow> length h \<le> r \<Longrightarrow>
   r < length g \<Longrightarrow> g ! r = ODict acc \<Longrightarrow> fst ` set acc \<inter> fst ` set kvs = {} \<Longrightarrow>
   (\<forall>g2. agree_on g g2 (length h) (Suc r) \<longrightarrow> read_items d g2 acc = Some accP) \<Longrightarrow>
     \<exists>g' acc'. redact_items_h (Suc d) g r kvs = (None, g') \<and> r < length g' \<and>
        g' ! r = ODict acc' \<and>
        (\<forall>g2. agree_on g' g2 (length h) (Suc r) \<longrightarrow>
           read_items d g2 acc' =
             Some (accP @ map (\<lambda>(key, v). if key_sensitive key then (key, PStr REDACTED_VALUE)
                                            else (key, redact_recursive v)) ps))"
  "read_elems d h xs = Some qs \<Longrightarrow> list_all distinct_keys qs \<Longrightarrow> take (length h) g = h \<Longrightarrow>
     \<exists>ys g'. redact_elems_h (Suc d) g xs = (Inr ys, g') \<and>
       (\<forall>g2. agree_on g' g2 (length h) (length g) \<longrightarrow>
              read_elems d g2 ys = Some (map redact_recursive qs))"
proof (induction d h v and d h kvs and d h xs arbitrary: P g and ps g r acc accP and qs g
    rule: read_read_items_read_elems.induct)
  case (1 d h)
  then show ?case by auto
next
  case (2 d h b)
  then show ?case by auto
next
  case (3 d h i)
  then show ?case by auto
next
  case (4 d h s)
  then show ?case by auto
next
  case (5 h a)
  then show ?case by simp
next
  case (6 d h a)
  from "6.prems"(1) have a: "a < length h"
    by (simp split: if_splits)
  from take_prefix_nth [OF "6.prems"(3) a] have nth: "g ! a = h ! a" .
  from take_prefix_length [OF "6.prems"(3)] have len: "length h \<le> length g" .
  with a have ag: "a < length g" by simp
  show ?case
  proof (cases "h ! a")
    case (ODict kvs)
    with "6.prems"(1) a obtain ps where ps: "read_items d h kvs = Some ps" "P = PDict ps"
      by auto
    from ps(2) "6.prems"(2) have dk: "distinct (map fst ps)"
      "list_all (\<lambda>(k, p). distinct_keys p) ps"
      by simp_all
    from dk(1) read_items_keys [OF ps(1)] have dkv: "distinct (map fst kvs)" by simp
    let ?g0 = "g @ [ODict []]"
    have t0: "take (length h) ?g0 = h"
      using "6.prems"(3) len by simp
    have r0: "length g < length ?g0" and o0: "?g0 ! length g = ODict []"
      and d0: "fst ` set [] \<inter> fst ` set kvs = {}"
      and i0: "\<forall>g2. agree_on ?g0 g2 (length h) (Suc (length g)) \<longrightarrow> read_items d g2 [] = Some []"
      by simp_all
    from "6.IH"(1) [OF a ODict ps(1) dkv dk(2) t0 len r0 o0 d0 i0]
    obtain g' acc' where run: "redact_items_h (Suc d) ?g0 (length g) kvs = (None, g')"
      and rl: "length g < length g'" and obj: "g' ! length g = ODict acc'"
      and rd: "\<And>g2. agree_on g' g2 (length h) (Suc (length g)) \<Longrightarrow> read_items d g2 acc' =
          Some (map (\<lambda>(key, v). if key_sensitive key then (key, PStr REDACTED_VALUE)
                                 else (key, redact_recursive v)) ps)"
      by auto
    from run ag nth ODict
    have "redact_recursive_h (Suc (Suc d)) g (VRef a) = (Inr (VRef (length g)), g')"
      by simp
    moreover have "read (Suc d) g2 (VRef (length g)) = Some (redact_recursive P)"
      if ag2: "agree_on g' g2 (length h) (length g)" for g2
    proof -
      from ag2 rl have l2: "length g < length g2" and o2: "g2 ! length g = g' ! length g"
        by (simp_all add: agree_on_def)
      from ag2 have "agree_on g' g2 (length h) (Suc (length g))"
        by (simp add: agree_on_def)
      from rd [OF this] l2 o2 obj ps(2) show ?thesis
        by simp
    qed
    ultimately show ?thesis by blast
  next
    case (OList xs)
    with "6.prems"(1) a obtain qs where qs: "read_elems d h xs = Some qs" "P = PList qs"
      by auto
    from qs(2) "6.prems"(2) have dk: "list_all distinct_keys qs" by simp
    from "6.IH"(2) [OF a OList qs(1) dk "6.prems"(3)]
    obtain ys g1 where run: "redact_elems_h (Suc d) g xs = (Inr ys, g1)"
      and rd: "\<And>g2. agree_on g1 g2 (length h) (length g) \<Longrightarrow>
                 read_elems d g2 ys = Some (map redact_recursive qs)"
      by blast
    from redact_h_prefix(3) [OF run] have fr: "take (length g) g1 = g" .
    from take_prefix_length [OF fr] have len1: "length g \<le> length g1" .
    from run ag nth OList
    have "redact_recursive_h (Suc (Suc d)) g (VRef a) =
            (Inr (VRef (length g1)), g1 @ [OList ys])"
      by simp
    moreover have "read (Suc d) g2 (VRef (length g1)) = Some (redact_recursive P)"
      if ag2: "agree_on (g1 @ [OList ys]) g2 (length h) (length g)" for g2
    proof -
      from ag2 len1 have l2: "length g1 < length g2" and o2: "g2 ! length g1 = OList ys"
        by (simp_all add: agree_on_def)
      from ag2 have "agree_on g1 g2 (length h) (length g)"
        by (auto simp: agree_on_def nth_append)
      from rd [OF this] l2 o2 qs(2) show ?thesis
        by simp
    qed
    ultimately show ?thesis by blast
  next
    case (OTuple xs)
    with "6.prems"(1) a obtain qs where qs: "read_elems d h xs = Some qs" "P = PTuple qs"
      by auto
    from ag nth OTuple
    have "redact_recursive_h (Suc (Suc d)) g (VRef a) = (Inr (VRef a), g)"
      by simp
    moreover have "read (Suc d) g2 (VRef a) = Some (redact_recursive P)"
      if ag2: "agree_on g g2 (length h) (length g)" for g2
    proof -
      from agree_on_prefix [OF ag2 "6.prems"(3)] have "take (length h) g2 = h"
        by simp
      from read_prefix(1) [OF "6.prems"(1) this] qs(2) show ?thesis
        by simp
    qed
    ultimately show ?thesis by blast
  qed
next
  case (7 d h)
  then show ?case by (auto simp: agree_on_def)
next
  case (8 d h key v kvs)
  let ?E = "\<lambda>(key, v). if key_sensitive key then (key, PStr REDACTED_VALUE)
                         else (key, redact_recursive v)"
  from "8.prems"(1) obtain p ps' where p: "read d h v = Some p"
    "read_items d h kvs = Some ps'" "ps = (key, p) # ps'"
    by (auto split: option.splits)
  from "8.prems"(2) have dkv: "distinct (map fst kvs)" and knew: "key \<notin> fst ` set kvs"
    by auto
  from "8.prems"(3) p(3) have dp: "distinct_keys p" and dps: "list_all (\<lambda>(k, p). distinct_keys p) ps'"
    by simp_all
  from "8.prems"(8) have kacc: "key \<notin> fst ` set acc" and disj: "fst ` set acc \<inter> fst ` set kvs = {}"
    by auto
  from take_prefix_length [OF "8.prems"(4)] have len: "length h \<le> length g" .
  note inv = "8.prems"(9) [rule_format]
  show ?case
  proof (cases "key_sensitive key")
    case True
    let ?v = "VStr REDACTED_VALUE"
    let ?g2 = "dict_store g r key ?v"
    let ?acc2 = "acc @ [(key, ?v)]"
    from "8.prems"(6,7) kacc have o2: "?g2 ! r = ODict ?acc2"
      by (simp add: dict_store_def dict_set_append)
    from "8.prems"(4,5) have t2: "take (length h) ?g2 = h"
      by (simp add: take_dict_store)
    from "8.prems"(6) have r2: "r < length ?g2" by simp
    from disj knew have disj2: "fst ` set ?acc2 \<inter> fst ` set kvs = {}" by auto
    have i2: "\<forall>g3. agree_on ?g2 g3 (length h) (Suc r) \<longrightarrow>
        read_items d g3 ?acc2 = Some (accP @ [(key, PStr REDACTED_VALUE)])"
    proof (intro allI impI)
      fix g3 assume ag3: "agree_on ?g2 g3 (length h) (Suc r)"
      with "8.prems"(5) have "agree_on g g3 (length h) (Suc r)"
        by (auto simp: agree_on_def dict_store_nth_other)
      from inv [OF this] show "read_items d g3 ?acc2 = Some (accP @ [(key, PStr REDACTED_VALUE)])"
        by (simp add: read_items_append)
    qed
    from "8.IH"(2) [OF p(1) p(2) dkv dps t2 "8.prems"(5) r2 o2 disj2 i2]
    obtain g' acc' where run: "redact_items_h (Suc d) ?g2 r kvs = (None, g')"
      and res: "r < length g'" "g' ! r = ODict acc'"
      and rd: "\<forall>g3. agree_on g' g3 (length h) (Suc r) \<longrightarrow>
        read_items d g3 acc' = Some ((accP @ [(key, PStr REDACTED_VALUE)]) @ map ?E ps')"
      by blast
    from run True have "redact_items_h (Suc d) g r ((key, v) # kvs) = (None, g')"
      by simp
    moreover from rd True p(3)
    have "\<forall>g3. agree_on g' g3 (length h) (Suc r) \<longrightarrow>
        read_items d g3 acc' = Some (accP @ map ?E ps)"
      by simp
    ultimately show ?thesis using res(1,2) by blast
  next
    case False
    from "8.IH"(1) [OF p(1) dp "8.prems"(4)]
    obtain v' g1 where run1: "redact_recursive_h (Suc d) g v = (Inr v', g1)"
      and rd1: "\<And>g3. agree_on g1 g3 (length h) (length g) \<Longrightarrow>
                  read d g3 v' = Some (redact_recursive p)"
      by blast
    from redact_h_prefix(1) [OF run1] have fr: "take (length g) g1 = g" .
    from take_prefix_length [OF fr] have len1: "length g \<le> length g1" .
    from take_prefix_nth [OF fr "8.prems"(6)] "8.prems"(7) have o1: "g1 ! r = ODict acc"
      by simp
    let ?g2 = "dict_store g1 r key v'"
    let ?acc2 = "acc @ [(key, v')]"
    from "8.prems"(6) len1 have r1: "r < length g1" by simp
    with o1 kacc have o2: "?g2 ! r = ODict ?acc2"
      by (simp add: dict_store_def dict_set_append)
    from take_prefix_take [OF fr len] "8.prems"(4) have "take (length h) g1 = h"
      by simp
    with "8.prems"(5) have t2: "take (length h) ?g2 = h"
      by (simp add: take_dict_store)
    from r1 have r2: "r < length ?g2" by simp
    from disj knew have disj2: "fst ` set ?acc2 \<inter> fst ` set kvs = {}" by auto
    have i2: "\<forall>g3. agree_on ?g2 g3 (length h) (Suc r) \<longrightarrow>
        read_items d g3 ?acc2 = Some (accP @ [(key, redact_recursive p)])"
    proof (intro allI impI)
      fix g3 assume ag3: "agree_on ?g2 g3 (length h) (Suc r)"
      have same: "g3 ! a = g1 ! a" if "a < length g1" "a < length h \<or> Suc r \<le> a" for a
      proof -
        from that "8.prems"(5) have "a \<noteq> r" by auto
        then have "?g2 ! a = g1 ! a" by (simp add: dict_store_nth_other)
        with ag3 that show ?thesis by (auto simp: agree_on_def)
      qed
      from ag3 have l3: "length g1 \<le> length g3" by (simp add: agree_on_def)
      have "agree_on g g3 (length h) (Suc r)"
        unfolding agree_on_def
      proof (intro conjI allI impI)
        from l3 len1 show "length g \<le> length g3" by simp
        fix a assume a: "a < length g" "a < length h \<or> Suc r \<le> a"
        with len1 same [of a] have "g3 ! a = g1 ! a" by simp
        with take_prefix_nth [OF fr a(1)] show "g3 ! a = g ! a" by simp
      qed
      from inv [OF this] have ra: "read_items d g3 acc = Some accP" .
      have "agree_on g1 g3 (length h) (length g)"
        unfolding agree_on_def
      proof (intro conjI allI impI)
        from l3 show "length g1 \<le> length g3" .
        fix a assume a: "a < length g1" "a < length h \<or> length g \<le> a"
        with "8.prems"(6) have "a < length h \<or> Suc r \<le> a" by auto
        with a(1) show "g3 ! a = g1 ! a" by (rule same)
      qed
      from rd1 [OF this] ra
      show "read_items d g3 ?acc2 = Some (accP @ [(key, redact_recursive p)])"
        by (simp add: read_items_append)
    qed
    from "8.IH"(2) [OF p(1) p(2) dkv dps t2 "8.prems"(5) r2 o2 disj2 i2]
    obtain g' acc' where run: "redact_items_h (Suc d) ?g2 r kvs = (None, g')"
      and res: "r < length g'" "g' ! r = ODict acc'"
      and rd: "\<forall>g3. agree_on g' g3 (length h) (Suc r) \<longrightarrow>
        read_items d g3 acc' = Some ((accP @ [(key, redact_recursive p)]) @ map ?E ps')"
      by blast
    from run run1 False have "redact_items_h (Suc d) g r ((key, v) # kvs) = (None, g')"
      by simp
    moreover from rd False p(3)
    have "\<forall>g3. agree_on g' g3 (length h) (Suc r) \<longrightarrow>
        read_items d g3 acc' = Some (accP @ map ?E ps)"
      by simp
    ultimately show ?thesis using res(1,2) by blast
  qed
next
  case (9 d h)
  then show ?case by auto
next
  case (10 d h x xs)
  from "10.prems"(1) obtain p qs' where p: "read d h x = Some p"
    "read_elems d h xs = Some qs'" "qs = p # qs'"
    by (auto split: option.splits)
  from "10.prems"(2) p(3) have dp: "distinct_keys p" and dqs: "list_all distinct_keys qs'"
    by simp_all
  from take_prefix_length [OF "10.prems"(3)] have len: "length h \<le> length g" .
  from "10.IH"(1) [OF p(1) dp "10.prems"(3)]
  obtain y g1 where run1: "redact_recursive_h (Suc d) g x = (Inr y, g1)"
    and rd1: "\<And>g3. agree_on g1 g3 (length h) (length g) \<Longrightarrow>
                read d g3 y = Some (redact_recursive p)"
    by blast
  from redact_h_prefix(1) [OF run1] have fr: "take (length g) g1 = g" .
  from take_prefix_length [OF fr] have len1: "length g \<le> length g1" .
  from take_prefix_take [OF fr len] "10.prems"(3) have t1: "take (length h) g1 = h"
    by simp
  from "10.IH"(2) [OF p(1) p(2) dqs t1]
  obtain ys g2 where run2: "redact_elems_h (Suc d) g1 xs = (Inr ys, g2)"
    and rd2: "\<And>g3. agree_on g2 g3 (length h) (length g1) \<Longrightarrow>
                read_elems d g3 ys = Some (map redact_recursive qs')"
    by blast
  from redact_h_prefix(3) [OF run2] have fr2: "take (length g1) g2 = g1" .
  from take_prefix_length [OF fr2] have len2: "length g1 \<le> length g2" .
  from run1 run2 have "redact_elems_h (Suc d) g (x # xs) = (Inr (y # ys), g2)"
    by simp
  moreover have "read_elems d g3 (y # ys) = Some (map redact_recursive qs)"
    if ag3: "agree_on g2 g3 (length h) (length g)" for g3
  proof -
    from ag3 len1 have "agree_on g2 g3 (length h) (length g1)"
      by (auto simp: agree_on_def)
    from rd2 [OF this] have r2: "read_elems d g3 ys = Some (map redact_recursive qs')" .
    have "agree_on g1 g3 (length h) (length g)"
      unfolding agree_on_def
    proof (intro conjI allI impI)
      from ag3 len2 show "length g1 \<le> length g3" by (simp add: agree_on_def)
      fix a assume a: "a < length g1" "a < length h \<or> length g \<le> a"
      with ag3 len2 have "g3 ! a = g2 ! a" by (auto simp: agree_on_def)
      with take_prefix_nth [OF fr2 a(1)] show "g3 ! a = g1 ! a" by simp
    qed
    from rd1 [OF this] r2 p(3) show ?thesis by simp
  qed
  ultimately show ?case by blast
qed

lemma agree_on_refl: "agree_on g g lo b"
  by (simp add: agree_on_def)

lemma redact_payload_h_refines:
  assumes "read d h payload = Some P" and "distinct_keys P"
  shows "\<exists>v' h'. redact_payload_h (Suc d) h payload skip_redaction = (Inr v', h') \<and>
                 read d h' v' = Some (redact_payload P skip_redaction)"
proof (cases skip_redaction)
  case True
  from deep_copy_h_refines(1) [OF assms(1), of h] True show ?thesis
    by (simp add: redact_payload_h_def redact_payload_def deep_copy_same)
next
  case False
  from redact_h_refines(1) [OF assms, of h]
  obtain v' h' where "redact_recursive_h (Suc d) h payload = (Inr v', h')"
    and "\<And>g2. agree_on h' g2 (length h) (length h) \<Longrightarrow> read d g2 v' = Some (redact_recursive P)"
    by auto
  with agree_on_refl [of h' "length h" "length h"] False show ?thesis
    by (simp add: redact_payload_h_def redact_payload_def)
qed

text \<open>
  The payload of the test \<open>test_does_not_mutate_original\<close>: the call creates two
  dictionaries, the payload denotes the same tree before and after the call, and the
  result denotes the redacted tree.
\<close>

lemma redact_payload_h_test:
  "redact_payload_h 3 test_heap (VRef 0) False = (Inr (VRef 2), test_heap_redacted) \<and>
   read 2 test_heap (VRef 0) = Some test_tree \<and>
   read 2 test_heap_redacted (VRef 0) = Some test_tree \<and>
   read 2 test_heap_redacted (VRef 2) = Some (redact_payload test_tree False) \<and>
   distinct_keys test_tree \<and> tuple_free test_tree"
proof -
  have s: "key_sensitive (KStr ''api_key'')" "key_sensitive (KStr ''token'')"
    by code_simp+
  have n: "\<not> key_sensitive (KStr ''nested'')"
    by code_simp
  have "redact_payload_h 3 test_heap (VRef 0) False = (Inr (VRef 2), test_heap_redacted)"
    by (simp add: redact_payload_h_def test_heap_redacted_def test_heap_def numeral_nat s n
        dict_store_def REDACTED_VALUE_def del: key_sensitive.simps)
  moreover have "read 2 test_heap (VRef 0) = Some test_tree"
    by (simp add: test_heap_def test_tree_def numeral_nat)
  moreover have "read 2 test_heap_redacted (VRef 0) = Some test_tree"
    by (simp add: test_heap_redacted_def test_heap_def test_tree_def numeral_nat)
  moreover have "read 2 test_heap_redacted (VRef 2) = Some (redact_payload test_tree False)"
    by (simp add: test_heap_redacted_def test_heap_def test_tree_def numeral_nat
        redact_payload_def s n REDACTED_VALUE_def del: key_sensitive.simps)
  moreover have "distinct_keys test_tree" "tuple_free test_tree"
    by (simp_all add: test_tree_def)
  ultimately show ?thesis
    by (intro conjI)
qed

section \<open>A tuple is shared\<close>

lemma reachable_tuple_heap_redacted:
  "reachable tuple_heap_redacted (VRef 0) 2" "reachable tuple_heap_redacted (VRef 3) 2"
proof -
  have len: "length tuple_heap_redacted = 4"
    by (simp add: tuple_heap_redacted_def tuple_heap_def)
  have two: "reachable tuple_heap_redacted (VRef 2) 2"
    by (rule reach_self) (simp add: len)
  have "VRef 2 \<in> set (obj_vals (tuple_heap_redacted ! 1))"
    by (simp add: tuple_heap_redacted_def tuple_heap_def)
  with two have one: "reachable tuple_heap_redacted (VRef 1) 2"
    by (intro reach_step [of 1 _ "VRef 2"]) (simp_all add: len)
  have "VRef 1 \<in> set (obj_vals (tuple_heap_redacted ! 0))"
    by (simp add: tuple_heap_redacted_def tuple_heap_def)
  with one show "reachable tuple_heap_redacted (VRef 0) 2"
    by (intro reach_step [of 0 _ "VRef 1"]) (simp_all add: len)
  have "VRef 1 \<in> set (obj_vals (tuple_heap_redacted ! 3))"
    by (simp add: tuple_heap_redacted_def tuple_heap_def)
  with one show "reachable tuple_heap_redacted (VRef 3) 2"
    by (intro reach_step [of 3 _ "VRef 1"]) (simp_all add: len)
qed

text \<open>
  Claim C2. The claim says that \<open>redact_payload\<close> never mutates the payload and that the
  result shares no mutable container with it. The first part holds
  (\<open>redact_payload_h_frame\<close>), and so does the second on a payload without tuples
  (\<open>redact_payload_h_fresh\<close>). The second fails on a tuple: \<open>_redact_recursive\<close> and \<open>_deep_copy\<close> copy a \<open>dict\<close> and a
  \<open>list\<close> and return every other object by reference. On the payload
  \<open>{'t': ({'token': 'x'},)}\<close>, for both values of \<open>skip_redaction\<close>, the call creates one
  dictionary whose entry \<open>t\<close> refers to the tuple of the payload; the dictionary inside
  the tuple, at address 2, existed before the call and can be reached from the payload and
  from the result. A write to it through the result, \<open>result['t'][0]['token'] = 'y'\<close>,
  changes what the payload denotes.
\<close>

theorem redact_payload_h_shares_tuple:
  "redact_payload_h 5 tuple_heap (VRef 0) False = (Inr (VRef 3), tuple_heap_redacted) \<and>
   redact_payload_h 5 tuple_heap (VRef 0) True = (Inr (VRef 3), tuple_heap_redacted) \<and>
   read 3 tuple_heap (VRef 0) = Some tuple_tree \<and>
   read 3 tuple_heap_redacted (VRef 3) = Some tuple_tree \<and>
   tuple_heap_redacted ! 2 = ODict [(KStr ''token'', VStr ''x'')] \<and>
   reachable tuple_heap_redacted (VRef 0) 2 \<and>
   reachable tuple_heap_redacted (VRef 3) 2 \<and>
   read 3 (dict_store tuple_heap_redacted 2 (KStr ''token'') (VStr ''y'')) (VRef 0)
     = Some (PDict [(KStr ''t'', PTuple [PDict [(KStr ''token'', PStr ''y'')]])])"
proof -
  have nt: "\<not> key_sensitive (KStr ''t'')"
    by code_simp
  have "redact_payload_h 5 tuple_heap (VRef 0) False = (Inr (VRef 3), tuple_heap_redacted)"
    by (simp add: redact_payload_h_def tuple_heap_redacted_def tuple_heap_def numeral_nat nt
        dict_store_def del: key_sensitive.simps)
  moreover have "redact_payload_h 5 tuple_heap (VRef 0) True = (Inr (VRef 3), tuple_heap_redacted)"
    by (simp add: redact_payload_h_def tuple_heap_redacted_def tuple_heap_def numeral_nat)
  moreover have "read 3 tuple_heap (VRef 0) = Some tuple_tree"
    by (simp add: tuple_heap_def tuple_tree_def numeral_nat)
  moreover have "read 3 tuple_heap_redacted (VRef 3) = Some tuple_tree"
    by (simp add: tuple_heap_redacted_def tuple_heap_def tuple_tree_def numeral_nat)
  moreover have "tuple_heap_redacted ! 2 = ODict [(KStr ''token'', VStr ''x'')]"
    by (simp add: tuple_heap_redacted_def tuple_heap_def)
  moreover have "read 3 (dict_store tuple_heap_redacted 2 (KStr ''token'') (VStr ''y'')) (VRef 0)
     = Some (PDict [(KStr ''t'', PTuple [PDict [(KStr ''token'', PStr ''y'')]])])"
    by (simp add: tuple_heap_redacted_def tuple_heap_def dict_store_def numeral_nat)
  ultimately show ?thesis
    using reachable_tuple_heap_redacted by (intro conjI)
qed

end
